theory Spec2Isabelle
  imports Complex_Main "HOL-Library.Multiset"
begin

section \<open>Go strings\<close>

text \<open>
  A Go string is read by the code under study through \<^verbatim>\<open>range\<close> (code points) and
  through \<^verbatim>\<open>strings.Fields\<close> (which decodes code points as well), so a string is
  modelled as the list of its Unicode code points. Strings that are not valid UTF-8 are
  outside the model.
\<close>

type_synonym rune = nat
type_synonym gostring = "rune list"

definition go :: "string \<Rightarrow> gostring" where
  "go s = map of_char s"

text \<open>
  \<^verbatim>\<open>unicode.IsSpace\<close>: the Latin-1 spaces are
  \<^verbatim>\<open>'\t', '\n', '\v', '\f', '\r', ' ', U+0085, U+00A0\<close>; beyond Latin-1 the code points of
  the White\_Space property.
\<close>

definition IsSpace :: "rune \<Rightarrow> bool" where
  "IsSpace r =
     ((9 \<le> r \<and> r \<le> 13) \<or> r = 32 \<or> r = 133 \<or> r = 160 \<or> r = 5760 \<or>
      (8192 \<le> r \<and> r \<le> 8202) \<or> r = 8232 \<or> r = 8233 \<or> r = 8239 \<or> r = 8287 \<or>
      r = 12288)"

text \<open>
  \<^verbatim>\<open>strings.Fields(s)\<close> splits \<open>s\<close> around each run of white space and returns the
  pieces between the runs; the scan keeps the field it is reading in \<open>w\<close>.
\<close>

fun fields_scan :: "gostring \<Rightarrow> gostring \<Rightarrow> gostring list" where
  "fields_scan w [] = (if w = [] then [] else [w])"
| "fields_scan w (c # cs) =
     (if IsSpace c then (if w = [] then fields_scan [] cs else w # fields_scan [] cs)
      else fields_scan (w @ [c]) cs)"

definition Fields :: "gostring \<Rightarrow> gostring list" where
  "Fields s = fields_scan [] s"

text \<open>\<^verbatim>\<open>strings.Join(elems, sep)\<close>.\<close>

fun Join :: "gostring list \<Rightarrow> gostring \<Rightarrow> gostring" where
  "Join [] sep = []"
| "Join [a] sep = a"
| "Join (a # b # r) sep = a @ sep @ Join (b # r) sep"

section \<open>The API handler (pkg/cobutler/api)\<close>

subsection \<open>limitWords\<close>

text \<open>
  \<^verbatim>\<open>
  func limitWords(text string, maxWords int) string {
      if maxWords <= 0 { return text }
      words := strings.Fields(text)
      if len(words) <= maxWords { return text }
      return strings.Join(words[:maxWords], " ")
  }
  \<close>
\<close>

definition limitWords :: "gostring \<Rightarrow> int \<Rightarrow> gostring" where
  "limitWords text maxWords =
     (if maxWords \<le> 0 then text
      else let words = Fields text in
        if int (length words) \<le> maxWords then text
        else Join (take (nat maxWords) words) (go '' ''))"

subsection \<open>selectReplyByPrecision\<close>

text \<open>
  The search for the shortest reply: \<^verbatim>\<open>for i := 1; i < len(replies); i++\<close>, which
  replaces the current best only on a strictly smaller word count.
\<close>

function shortest_loop :: "gostring list \<Rightarrow> nat \<Rightarrow> nat \<Rightarrow> nat \<Rightarrow> nat" where
  "shortest_loop replies i shortestIdx shortestLen =
     (if i < length replies then
        (let currLen = length (Fields (replies ! i)) in
         if currLen < shortestLen then shortest_loop replies (i + 1) i currLen
         else shortest_loop replies (i + 1) shortestIdx shortestLen)
      else shortestIdx)"
  by pat_completeness auto
termination
  by (relation "measure (\<lambda>(replies, i, sIdx, sLen). length replies - i)") auto

declare shortest_loop.simps [simp del]

text \<open>The pairs \<^verbatim>\<open>indexedLength{idx, length}\<close> the middle branch sorts.\<close>

record indexedLength =
  idx :: nat
  length' :: nat

text \<open>
  The sort of the middle branch is an exchange sort written in place:
  \<^verbatim>\<open>
  for i := 0; i < len(sortedLengths); i++ {
      for j := i + 1; j < len(sortedLengths); j++ {
          if sortedLengths[i].length > sortedLengths[j].length {
              sortedLengths[i], sortedLengths[j] = sortedLengths[j], sortedLengths[i]
          }
      }
  }
  \<close>
  \<open>sort_inner\<close> is the loop over \<open>j\<close>, \<open>sort_outer\<close> the loop over \<open>i\<close>.
\<close>

function sort_inner :: "nat \<Rightarrow> nat \<Rightarrow> indexedLength list \<Rightarrow> indexedLength list" where
  "sort_inner i j sortedLengths =
     (if j < length sortedLengths then
        sort_inner i (j + 1)
          (if length' (sortedLengths ! i) > length' (sortedLengths ! j)
           then sortedLengths[i := sortedLengths ! j, j := sortedLengths ! i]
           else sortedLengths)
      else sortedLengths)"
  by pat_completeness auto
termination
  by (relation "measure (\<lambda>(i, j, xs). length xs - j)") auto

declare sort_inner.simps [simp del]

function sort_outer :: "nat \<Rightarrow> indexedLength list \<Rightarrow> indexedLength list" where
  "sort_outer i sortedLengths =
     (if i < length sortedLengths then sort_outer (i + 1) (sort_inner i (i + 1) sortedLengths)
      else sortedLengths)"
  by pat_completeness auto
termination
proof (relation "measure (\<lambda>(i, xs). length xs - i)")
  show "wf (measure (\<lambda>(i :: nat, xs :: indexedLength list). length xs - i))"
    by simp
next
  fix i :: nat and sortedLengths :: "indexedLength list"
  assume a: "i < length sortedLengths"
  have len: "length (sort_inner a b xs) = length xs" for a b xs
  proof (induction a b xs rule: sort_inner.induct)
    case (1 i j xs)
    then show ?case by (subst sort_inner.simps) (simp split: if_splits)
  qed
  show "((i + 1, sort_inner i (i + 1) sortedLengths), i, sortedLengths)
          \<in> measure (\<lambda>(i, xs). length xs - i)"
    using a by (simp add: len)
qed

declare sort_outer.simps [simp del]

definition sortByLength :: "indexedLength list \<Rightarrow> indexedLength list" where
  "sortByLength sortedLengths = sort_outer 0 sortedLengths"

text \<open>
  \<^verbatim>\<open>selectReplyByPrecision(replies, precision)\<close>. The last branch draws
  \<^verbatim>\<open>rand.Intn(len(replies))\<close>; \<open>rnd\<close> is the value the global source yields, reduced
  to the range. The thresholds are written as in the source.
\<close>

definition selectReplyByPrecision :: "gostring list \<Rightarrow> real \<Rightarrow> nat \<Rightarrow> gostring" where
  "selectReplyByPrecision replies precision rnd =
     (if length replies = 0 then []
      else if length replies = 1 then replies ! 0
      else if precision > 0.9 then
        replies ! shortest_loop replies 1 0 (length (Fields (replies ! 0)))
      else if precision > 0.7 then
        (let lengths = map (\<lambda>reply. length (Fields reply)) replies;
             sortedLengths = map (\<lambda>i. \<lparr>idx = i, length' = lengths ! i\<rparr>) [0..<length lengths];
             sorted = sortByLength sortedLengths;
             midIdx = idx (sorted ! (length sorted div 2))
         in replies ! midIdx)
      else replies ! (rnd mod length replies))"

subsection \<open>Predict\<close>

text \<open>
  The handler reaches the brain through the interface \<^verbatim>\<open>Brain\<close>; the model takes the
  methods it calls as functions over the brain's state \<open>'b\<close>, with the brain's errors of an
  arbitrary type \<open>'e\<close>.
\<close>

record ('b, 'e) Brain =
  Reply :: "gostring \<Rightarrow> 'b \<Rightarrow> ('e + gostring) \<times> 'b"
  EnableCache :: "'b \<Rightarrow> 'b"
  DisableCache :: "'b \<Rightarrow> 'b"

record RequestPayload =
  Text :: gostring
  MaxWords :: int
  Precision :: real
  Context :: gostring
  UseCache :: bool

text \<open>
  \<open>Precision\<close> is a \<^verbatim>\<open>float64\<close>, read here as the decimal number it stands for, so
  that the comparisons with the constants \<^verbatim>\<open>0.9\<close>, \<^verbatim>\<open>0.7\<close>, \<^verbatim>\<open>0\<close> and
  \<^verbatim>\<open>1\<close> of the source are comparisons of real numbers with these constants.

  A request is its method and its body, \<open>None\<close> for a body the JSON decoder rejects. A
  response is either \<^verbatim>\<open>http.Error(w, message, code)\<close> or the JSON encoding of a
  \<^verbatim>\<open>ResponsePayload\<close>.
\<close>

record http_request =
  Method :: string
  Body :: "RequestPayload option"

datatype http_response = HttpError string nat | ResponsePayload gostring

text \<open>
  \<^verbatim>\<open>postProcessCodeReply(reply, filetype)\<close> returns the reply unchanged for the
  filetypes \<^verbatim>\<open>"text"\<close> and \<^verbatim>\<open>""\<close>. The fix-ups of the other filetypes
  (bracket balancing, regular-expression rewrites) and \<^verbatim>\<open>extractCodeMetadata\<close> rest on
  Go's regexp package; they enter the handler as the parameters \<open>fixups\<close> and
  \<open>extractCodeMetadata\<close>, so every statement about the handler holds whatever they compute.
\<close>

definition postProcessCodeReply ::
  "(gostring \<Rightarrow> gostring \<Rightarrow> gostring) \<Rightarrow> gostring \<Rightarrow> gostring \<Rightarrow> gostring" where
  "postProcessCodeReply fixups reply filetype =
     (if filetype = go ''text'' \<or> filetype = [] then reply else fixups reply filetype)"

text \<open>
  The loop \<^verbatim>\<open>for i := 0; i < numResponses; i++ { replies[i], err = h.Brain.Reply(...) }\<close>,
  which leaves the handler at the first error.
\<close>

function generate_replies ::
  "('b, 'e) Brain \<Rightarrow> gostring \<Rightarrow> nat \<Rightarrow> nat \<Rightarrow> gostring list \<Rightarrow> 'b \<Rightarrow> ('e + gostring list) \<times> 'b" where
  "generate_replies brain processedText numResponses i replies b =
     (if i < numResponses then
        (case Reply brain processedText b of
           (Inl err, b') \<Rightarrow> (Inl err, b')
         | (Inr r, b') \<Rightarrow> generate_replies brain processedText numResponses (i + 1) (replies[i := r]) b')
      else (Inr replies, b))"
  by pat_completeness auto
termination
  by (relation "measure (\<lambda>(brain, t, n, i, replies, b). n - i)") auto

declare generate_replies.simps [simp del]

text \<open>The precision the handler works with: the default for a value \<open>\<le> 0\<close>, the cap at 1.\<close>

definition effective_precision :: "real \<Rightarrow> real" where
  "effective_precision p =
     (let precision = (if p \<le> 0 then 0.7 else p) in
      if precision > 1 then 1.0 else precision)"

text \<open>
  The end of the handler, applied to the reply it generated:
  \<^verbatim>\<open>
  reply = postProcessCodeReply(reply, filetype)
  if req.MaxWords > 0 { reply = limitWords(reply, req.MaxWords) }
  \<close>
\<close>

definition finish_reply ::
  "(gostring \<Rightarrow> gostring \<Rightarrow> gostring) \<Rightarrow> gostring \<Rightarrow> int \<Rightarrow> gostring \<Rightarrow> gostring" where
  "finish_reply fixups filetype maxWords reply =
     (let reply' = postProcessCodeReply fixups reply filetype
      in if maxWords > 0 then limitWords reply' maxWords else reply')"

text \<open>
  \<^verbatim>\<open>Handler.Predict\<close>, from the method check to the response; logging is left out. The
  result is the response and the brain's state after the calls.
\<close>

definition Predict ::
  "('b, 'e) Brain \<Rightarrow> (gostring \<Rightarrow> gostring \<times> gostring) \<Rightarrow> (gostring \<Rightarrow> gostring \<Rightarrow> gostring) \<Rightarrow>
   nat \<Rightarrow> http_request \<Rightarrow> 'b \<Rightarrow> http_response \<times> 'b" where
  "Predict brain extractCodeMetadata fixups rnd r b0 =
     (if Method r \<noteq> ''POST'' then (HttpError ''Method not allowed'' 405, b0)
      else case Body r of
        None \<Rightarrow> (HttpError ''Invalid request'' 400, b0)
      | Some req \<Rightarrow>
          (let b1 = (if UseCache req then EnableCache brain b0 else DisableCache brain b0);
               (filetype, processedText) = extractCodeMetadata (Text req);
               precision = effective_precision (Precision req);
               (generated, b2) =
                 (if precision > 0.7 then
                    (let numResponses = (if precision > 0.9 then 5 else 3) in
                     case generate_replies brain processedText numResponses 0
                            (replicate numResponses []) b1 of
                       (Inl err, b') \<Rightarrow> (Inl err, b')
                     | (Inr replies, b') \<Rightarrow> (Inr (selectReplyByPrecision replies precision rnd), b'))
                  else Reply brain processedText b1)
           in case generated of
                Inl err \<Rightarrow> (HttpError ''Failed to generate reply'' 500, b2)
              | Inr reply \<Rightarrow>
                  (ResponsePayload (finish_reply fixups filetype (MaxWords req) reply), b2)))"

section \<open>The graph store (pkg/cobutler/db)\<close>

subsection \<open>Tables, connection, errors\<close>

text \<open>
  The store is an SQLite database with the tables \<^verbatim>\<open>tokens\<close>, \<^verbatim>\<open>nodes\<close> and
  \<^verbatim>\<open>edges\<close>. A table is the list of its rows in rowid order; the columns are the ones the
  statements of the source name (\<^verbatim>\<open>count\<close> is \<open>node_count\<close> and \<open>edge_count\<close>, the
  columns \<^verbatim>\<open>token0_id, token1_id, ...\<close> of a node are the list \<open>token_ids\<close>). Ids and
  counts are Go's \<^verbatim>\<open>int\<close> and SQLite's 64-bit integers, far from overflow: they are
  modelled as \<open>int\<close>.
\<close>

record token_row =
  token_id :: int
  token_text :: gostring
  is_word :: int

record node_row =
  node_id :: int
  node_count :: int
  token_ids :: "int list"

record edge_row =
  edge_id :: int
  prev_node :: int
  next_node :: int
  has_space :: int
  edge_count :: int

text \<open>
  A statement sent over the connection can fail (I/O, a locked file, a malformed statement).
  \<open>faults\<close> lists, for the statements to come, whether each one fails; beyond the end of
  the list no statement fails. A statement that fails changes no table.
\<close>

record sqlDB =
  tokens :: "token_row list"
  nodes :: "node_row list"
  edges :: "edge_row list"
  faults :: "bool list"

record Graph =
  Conn :: sqlDB
  order :: int

text \<open>
  The errors the store returns: \<open>ErrDatabase\<close> is an error of the database layer (wrapped
  by the source with the name of the operation), the others are the messages the source builds
  itself. \<open>Panic\<close> is Go's run-time panic on a slice bound out of range.
\<close>

datatype error =
    ErrDatabase
  | ErrExpectedTokens int int
  | ErrContextTooShort
  | ErrNoMatchingContext
  | Panic

definition next_fault :: "sqlDB \<Rightarrow> bool \<times> sqlDB" where
  "next_fault c = (case faults c of [] \<Rightarrow> (False, c) | f # fs \<Rightarrow> (f, c\<lparr>faults := fs\<rparr>))"

text \<open>
  \<^verbatim>\<open>result.LastInsertId()\<close>: the rowid SQLite gives a new row of a table with an integer
  primary key, one more than the largest rowid in the table, 1 in an empty table. (The
  \<^verbatim>\<open>CREATE TABLE\<close> statements are not part of the sources; the store is opened on an
  existing database file.) With the sqlite3 driver \<^verbatim>\<open>LastInsertId\<close> and
  \<^verbatim>\<open>RowsAffected\<close> return no error.
\<close>

definition next_rowid :: "int list \<Rightarrow> int" where
  "next_rowid ids = (case ids of [] \<Rightarrow> 1 | x # xs \<Rightarrow> fold max xs x + 1)"

text \<open>The value of column \<^verbatim>\<open>token<i>_id\<close> of a node row, if the row has that column.\<close>

definition token_col :: "node_row \<Rightarrow> nat \<Rightarrow> int option" where
  "token_col n i = (if i < length (token_ids n) then Some (token_ids n ! i) else None)"

text \<open>
  The sources of randomness (\<^verbatim>\<open>math/rand\<close> and SQLite's \<^verbatim>\<open>RANDOM()\<close>) are a
  list of numbers drawn one after the other, 0 once the list is used up. Every statement
  below holds for every such list.
\<close>

definition draw :: "nat list \<Rightarrow> nat \<times> nat list" where
  "draw rs = (case rs of [] \<Rightarrow> (0, []) | r # rs' \<Rightarrow> (r, rs'))"

text \<open>
  \<^verbatim>\<open>ORDER BY RANDOM() LIMIT k\<close>: up to \<open>k\<close> of the rows, without repetition, in a
  random order.
\<close>

fun random_rows :: "nat \<Rightarrow> 'a list \<Rightarrow> nat list \<Rightarrow> 'a list \<times> nat list" where
  "random_rows 0 rows rs = ([], rs)"
| "random_rows (Suc k) rows rs =
     (if rows = [] then ([], rs)
      else let (r, rs1) = draw rs;
               i = r mod length rows;
               (picked, rs2) = random_rows k (take i rows @ drop (Suc i) rows) rs1
           in (rows ! i # picked, rs2))"

subsection \<open>GetTokenByText\<close>

text \<open>\<^verbatim>\<open>isAlphanumeric\<close> of the tokenizer (pkg/cobutler/models/tokenizer.go).\<close>

definition isAlphanumeric :: "rune \<Rightarrow> bool" where
  "isAlphanumeric char =
     ((of_char CHR ''a'' \<le> char \<and> char \<le> of_char CHR ''z'') \<or>
      (of_char CHR ''A'' \<le> char \<and> char \<le> of_char CHR ''Z'') \<or>
      (of_char CHR ''0'' \<le> char \<and> char \<le> of_char CHR ''9''))"

text \<open>
  The loop that looks for a word character:
  \<^verbatim>\<open>
  isWord := 0
  for _, c := range text {
      if (c >= 'a' && c <= 'z') || (c >= 'A' && c <= 'Z') || (c >= '0' && c <= '9') || c == '_' {
          isWord = 1
          break
      }
  }
  \<close>
\<close>

fun isWord_loop :: "gostring \<Rightarrow> int" where
  "isWord_loop [] = 0"
| "isWord_loop (c # cs) =
     (if (of_char CHR ''a'' \<le> c \<and> c \<le> of_char CHR ''z'') \<or>
         (of_char CHR ''A'' \<le> c \<and> c \<le> of_char CHR ''Z'') \<or>
         (of_char CHR ''0'' \<le> c \<and> c \<le> of_char CHR ''9'') \<or> c = of_char CHR ''_''
      then 1 else isWord_loop cs)"

text \<open>
  \<^verbatim>\<open>GetTokenByText(text, create)\<close>: the \<^verbatim>\<open>SELECT\<close>, and for a missing text with
  \<open>create\<close> the \<^verbatim>\<open>INSERT\<close>. \<^verbatim>\<open>QueryRow(...).Scan\<close> reads the first row of the
  result and yields \<^verbatim>\<open>sql.ErrNoRows\<close> on an empty one.
\<close>

definition GetTokenByText :: "Graph \<Rightarrow> gostring \<Rightarrow> bool \<Rightarrow> (error + int) \<times> Graph" where
  "GetTokenByText g text create =
     (let (failed, c1) = next_fault (Conn g) in
      if failed then (Inl ErrDatabase, g\<lparr>Conn := c1\<rparr>)
      else case filter (\<lambda>t. token_text t = text) (tokens c1) of
        t # _ \<Rightarrow> (Inr (token_id t), g\<lparr>Conn := c1\<rparr>)
      | [] \<Rightarrow>
          if \<not> create then (Inr 0, g\<lparr>Conn := c1\<rparr>)
          else
            (let isWord = isWord_loop text;
                 (failed2, c2) = next_fault c1 in
             if failed2 then (Inl ErrDatabase, g\<lparr>Conn := c2\<rparr>)
             else
               (let lastID = next_rowid (map token_id (tokens c2)) in
                (Inr lastID,
                 g\<lparr>Conn := c2\<lparr>tokens := tokens c2 @
                     [\<lparr>token_id = lastID, token_text = text, is_word = isWord\<rparr>]\<rparr>\<rparr>))))"

subsection \<open>GetNodeByTokens\<close>

text \<open>
  \<^verbatim>\<open>GetNodeByTokens(tokens)\<close> looks the node up by all its token columns and inserts it,
  with count 0, when no row matches. With order 0 the \<^verbatim>\<open>WHERE\<close> clause is empty and the
  statement is rejected by the database.
\<close>

definition GetNodeByTokens :: "Graph \<Rightarrow> int list \<Rightarrow> (error + int) \<times> Graph" where
  "GetNodeByTokens g tokens' =
     (if int (length tokens') \<noteq> order g
      then (Inl (ErrExpectedTokens (order g) (int (length tokens'))), g)
      else
        (let (failed, c1) = next_fault (Conn g) in
         if failed \<or> order g = 0 then (Inl ErrDatabase, g\<lparr>Conn := c1\<rparr>)
         else case filter (\<lambda>n. list_all (\<lambda>i. token_col n i = Some (tokens' ! i)) [0..<nat (order g)])
                     (nodes c1) of
           n # _ \<Rightarrow> (Inr (node_id n), g\<lparr>Conn := c1\<rparr>)
         | [] \<Rightarrow>
             (let (failed2, c2) = next_fault c1 in
              if failed2 then (Inl ErrDatabase, g\<lparr>Conn := c2\<rparr>)
              else
                (let lastID = next_rowid (map node_id (nodes c2)) in
                 (Inr lastID,
                  g\<lparr>Conn := c2\<lparr>nodes := nodes c2 @
                      [\<lparr>node_id = lastID, node_count = 0, token_ids = tokens'\<rparr>]\<rparr>\<rparr>)))))"

subsection \<open>AddEdge\<close>

text \<open>
  \<^verbatim>\<open>AddEdge(prevNode, nextNode, hasSpace)\<close>: the \<^verbatim>\<open>UPDATE\<close> adds 1 to the count of
  every row with the triple; when it touched no row, the \<^verbatim>\<open>INSERT\<close> adds a row with
  count 1. The result is the error, \<open>None\<close> for \<^verbatim>\<open>nil\<close>.
\<close>

definition AddEdge :: "Graph \<Rightarrow> int \<Rightarrow> int \<Rightarrow> bool \<Rightarrow> error option \<times> Graph" where
  "AddEdge g prevNode nextNode hasSpace =
     (let hasSpaceInt = (if hasSpace then 1 else 0);
          (failed, c1) = next_fault (Conn g) in
      if failed then (Some ErrDatabase, g\<lparr>Conn := c1\<rparr>)
      else
        (let hit = (\<lambda>e. prev_node e = prevNode \<and> next_node e = nextNode \<and> has_space e = hasSpaceInt);
             rowsAffected = length (filter hit (edges c1));
             c2 = c1\<lparr>edges := map (\<lambda>e. if hit e then e\<lparr>edge_count := edge_count e + 1\<rparr> else e) (edges c1)\<rparr>
         in if rowsAffected = 0 then
              (let (failed2, c3) = next_fault c2 in
               if failed2 then (Some ErrDatabase, g\<lparr>Conn := c3\<rparr>)
               else (None,
                     g\<lparr>Conn := c3\<lparr>edges := edges c3 @
                         [\<lparr>edge_id = next_rowid (map edge_id (edges c3)), prev_node = prevNode,
                           next_node = nextNode, has_space = hasSpaceInt, edge_count = 1\<rparr>]\<rparr>\<rparr>))
            else (None, g\<lparr>Conn := c2\<rparr>)))"

subsection \<open>SearchRandomWalk\<close>

definition maxLength :: nat where
  "maxLength = 15"

text \<open>
  The end of an edge the walk stands on and the end it moves to: forward
  (\<open>direction = True\<close>) from \<^verbatim>\<open>prev_node\<close> to \<^verbatim>\<open>next_node\<close>, backward the other way.
\<close>

definition walk_from :: "bool \<Rightarrow> edge_row \<Rightarrow> int" where
  "walk_from direction e = (if direction then prev_node e else next_node e)"

definition walk_to :: "bool \<Rightarrow> edge_row \<Rightarrow> int" where
  "walk_to direction e = (if direction then next_node e else prev_node e)"

text \<open>
  The scan of the result rows \<^verbatim>\<open>(id, targetID)\<close>, which skips the self-loops
  (\<^verbatim>\<open>if targetID == currentID { continue }\<close>).
\<close>

fun collect_edges :: "int \<Rightarrow> (int \<times> int) list \<Rightarrow> (int \<times> int) list" where
  "collect_edges currentID [] = []"
| "collect_edges currentID ((id', targetID) # rows) =
     (if targetID = currentID then collect_edges currentID rows
      else (id', targetID) # collect_edges currentID rows)"

text \<open>
  One pass through the body of the loop, up to the choice of the edge: the query
  (\<^verbatim>\<open>SELECT id, next_node FROM edges WHERE prev_node = ? ORDER BY RANDOM() LIMIT 5\<close>, or
  its mirror image), the scan, and the choice
  \<^verbatim>\<open>edges[0]\<close> or \<^verbatim>\<open>edges[rand.Intn(len(edges))]\<close>. The result is the error of the
  query, \<open>None\<close> at a dead end, or the chosen \<^verbatim>\<open>(ID, TargetID)\<close>.
\<close>

definition walk_step ::
  "Graph \<Rightarrow> bool \<Rightarrow> int \<Rightarrow> nat list \<Rightarrow> (error + (int \<times> int) option) \<times> Graph \<times> nat list" where
  "walk_step g direction currentID rs =
     (let (failed, c1) = next_fault (Conn g);
          g1 = g\<lparr>Conn := c1\<rparr> in
      if failed then (Inl ErrDatabase, g1, rs)
      else
        (let (rows, rs1) = random_rows 5 (filter (\<lambda>e. walk_from direction e = currentID) (edges c1)) rs;
             edges' = collect_edges currentID (map (\<lambda>e. (edge_id e, walk_to direction e)) rows)
         in if length edges' = 0 then (Inr None, g1, rs1)
            else if length edges' > 1 then
              (let (r, rs2) = draw rs1 in (Inr (Some (edges' ! (r mod length edges'))), g1, rs2))
            else (Inr (Some (edges' ! 0)), g1, rs1)))"

text \<open>
  The loop \<^verbatim>\<open>for i := 0; i < maxLength; i++\<close> around it: a dead end and the arrival at
  \<open>endID\<close> leave the loop with the path so far, an error of the query returns the error.
\<close>

function walk_loop ::
  "Graph \<Rightarrow> int \<Rightarrow> bool \<Rightarrow> nat \<Rightarrow> int \<Rightarrow> int list \<Rightarrow> nat list \<Rightarrow> (error + int list) \<times> Graph \<times> nat list" where
  "walk_loop g endID direction i currentID edgeIDs rs =
     (if i < maxLength then
        (case walk_step g direction currentID rs of
           (Inl err, g1, rs1) \<Rightarrow> (Inl err, g1, rs1)
         | (Inr None, g1, rs1) \<Rightarrow> (Inr edgeIDs, g1, rs1)
         | (Inr (Some (id', targetID)), g1, rs1) \<Rightarrow>
             if targetID = endID then (Inr (edgeIDs @ [id']), g1, rs1)
             else walk_loop g1 endID direction (i + 1) targetID (edgeIDs @ [id']) rs1)
      else (Inr edgeIDs, g, rs))"
  by pat_completeness auto
termination
  by (relation "measure (\<lambda>(g, endID, direction, i, currentID, edgeIDs, rs). maxLength - i)") auto

declare walk_loop.simps [simp del]

definition SearchRandomWalk ::
  "Graph \<Rightarrow> nat list \<Rightarrow> int \<Rightarrow> int \<Rightarrow> bool \<Rightarrow> (error + int list) \<times> Graph \<times> nat list" where
  "SearchRandomWalk g rs startID endID direction = walk_loop g endID direction 0 startID [] rs"

subsection \<open>FindEdgesForContext\<close>

text \<open>
  \<^verbatim>\<open>findEdgesFromNode(nodeID)\<close>:
  \<^verbatim>\<open>SELECT id FROM edges WHERE prev_node = ? ORDER BY count DESC LIMIT 20\<close>. Rows of equal
  count keep their table order.
\<close>

definition findEdgesFromNode :: "Graph \<Rightarrow> int \<Rightarrow> (error + int list) \<times> Graph" where
  "findEdgesFromNode g nodeID =
     (let (failed, c1) = next_fault (Conn g) in
      if failed then (Inl ErrDatabase, g\<lparr>Conn := c1\<rparr>)
      else (Inr (map edge_id (take 20 (sort_key (\<lambda>e. - edge_count e)
                    (filter (\<lambda>e. prev_node e = nodeID) (edges c1))))),
            g\<lparr>Conn := c1\<rparr>))"

text \<open>
  \<^verbatim>\<open>findNodeContainingContext(tokenIDs)\<close>: for a context of exactly \<open>order\<close> ids it
  calls \<^verbatim>\<open>GetNodeByTokens\<close>; otherwise it runs
  \<^verbatim>\<open>
  SELECT id FROM nodes WHERE id IN (
      SELECT nodes.id FROM nodes WHERE token0_id IN (<matchIDs>) LIMIT 20
  ) LIMIT 1
  \<close>
  with \<^verbatim>\<open>matchIDs = tokenIDs[0:min(len(tokenIDs), order)]\<close>, and returns 0 when the result
  is empty. The slice expression panics for a negative bound.
\<close>

definition findNodeContainingContext :: "Graph \<Rightarrow> int list \<Rightarrow> (error + int) \<times> Graph" where
  "findNodeContainingContext g tokenIDs =
     (if int (length tokenIDs) = order g then GetNodeByTokens g tokenIDs
      else
        (let matchLength = min (int (length tokenIDs)) (order g) in
         if matchLength < 0 then (Inl Panic, g)
         else
           (let matchIDs = take (nat matchLength) tokenIDs;
                (failed, c1) = next_fault (Conn g) in
            if failed then (Inl ErrDatabase, g\<lparr>Conn := c1\<rparr>)
            else
              (let inner = map node_id (take 20
                             (filter (\<lambda>n. \<exists>t\<in>set matchIDs. token_col n 0 = Some t) (nodes c1)))
               in case filter (\<lambda>n. node_id n \<in> set inner) (nodes c1) of
                    [] \<Rightarrow> (Inr 0, g\<lparr>Conn := c1\<rparr>)
                  | n # _ \<Rightarrow> (Inr (node_id n), g\<lparr>Conn := c1\<rparr>)))))"

text \<open>
  \<^verbatim>\<open>
  func (g *Graph) FindEdgesForContext(tokenIDs []int) ([]int, error) {
      if len(tokenIDs) < 2 { return nil, fmt.Errorf("context too short") }
      nodeID, err := g.findNodeContainingContext(tokenIDs)
      if err != nil || nodeID == 0 { return nil, fmt.Errorf("no matching context found") }
      edges, err := g.findEdgesFromNode(nodeID)
      if err != nil { return nil, err }
      return edges, nil
  }
  \<close>
\<close>

definition FindEdgesForContext :: "Graph \<Rightarrow> int list \<Rightarrow> (error + int list) \<times> Graph" where
  "FindEdgesForContext g tokenIDs =
     (if length tokenIDs < 2 then (Inl ErrContextTooShort, g)
      else case findNodeContainingContext g tokenIDs of
        (Inl Panic, g1) \<Rightarrow> (Inl Panic, g1)
      | (Inl err, g1) \<Rightarrow> (Inl ErrNoMatchingContext, g1)
      | (Inr nodeID, g1) \<Rightarrow>
          if nodeID = 0 then (Inl ErrNoMatchingContext, g1)
          else findEdgesFromNode g1 nodeID)"

section \<open>Vocabulary of the statements\<close>

text \<open>The number of words of a reply, as the handler counts them.\<close>

definition word_count :: "gostring \<Rightarrow> nat" where
  "word_count s = length (Fields s)"

text \<open>
  \<open>first_fewest_words candidates k\<close>: candidate \<open>k\<close> has the fewest words, and every earlier
  candidate has more.
\<close>

definition first_fewest_words :: "gostring list \<Rightarrow> nat \<Rightarrow> bool" where
  "first_fewest_words candidates k =
     (k < length candidates \<and>
      (\<forall>j<length candidates. word_count (candidates ! k) \<le> word_count (candidates ! j)) \<and>
      (\<forall>j<k. word_count (candidates ! k) < word_count (candidates ! j)))"

text \<open>
  \<open>successive_replies brain t n b\<close>: what \<open>n\<close> calls of \<^verbatim>\<open>Reply\<close>, one after the other
  from the state \<open>b\<close>, return, in the order of the calls; the first error ends them.
\<close>

fun successive_replies ::
  "('b, 'e) Brain \<Rightarrow> gostring \<Rightarrow> nat \<Rightarrow> 'b \<Rightarrow> ('e + gostring list) \<times> 'b" where
  "successive_replies brain text 0 b = (Inr [], b)"
| "successive_replies brain text (Suc n) b =
     (case Reply brain text b of
        (Inl err, b') \<Rightarrow> (Inl err, b')
      | (Inr r, b') \<Rightarrow>
          (case successive_replies brain text n b' of
             (Inl err, b'') \<Rightarrow> (Inl err, b'')
           | (Inr rs, b'') \<Rightarrow> (Inr (r # rs), b'')))"

text \<open>
  \<open>generation brain extractCodeMetadata rnd req b\<close>: the reply the handler has in hand before
  its end, and the brain's state then: above the precision 0.7 the candidate selected among
  three or five successive replies, otherwise the one reply of the brain; an error of the
  brain in place of the reply.
\<close>

definition generation ::
  "('b, 'e) Brain \<Rightarrow> (gostring \<Rightarrow> gostring \<times> gostring) \<Rightarrow> nat \<Rightarrow> RequestPayload \<Rightarrow> 'b \<Rightarrow>
   ('e + gostring) \<times> 'b" where
  "generation brain extractCodeMetadata rnd req b =
     (let b1 = (if UseCache req then EnableCache brain b else DisableCache brain b);
          processedText = snd (extractCodeMetadata (Text req));
          precision = effective_precision (Precision req)
      in if precision > 0.7 then
           (case successive_replies brain processedText (if precision > 0.9 then 5 else 3) b1 of
              (Inl err, b') \<Rightarrow> (Inl err, b')
            | (Inr candidates, b') \<Rightarrow>
                (Inr (selectReplyByPrecision candidates precision rnd), b'))
         else Reply brain processedText b1)"

text \<open>
  The invariant of the exchange sort: the first \<open>i\<close> places hold their final elements.
\<close>

definition prefix_done :: "nat \<Rightarrow> indexedLength list \<Rightarrow> bool" where
  "prefix_done i xs =
     (\<forall>a b. a < i \<and> a < b \<and> b < length xs \<longrightarrow> length' (xs ! a) \<le> length' (xs ! b))"

text \<open>
  Concrete inputs for the handler: a brain that answers its \<open>n\<close>-th call with the
  \<open>n\<close>-th entry of a script and counts the calls, a request text without markers
  (filetype \<^verbatim>\<open>"text"\<close>), a POST request.
\<close>

definition scripted_brain :: "gostring list \<Rightarrow> (nat, unit) Brain" where
  "scripted_brain script =
     \<lparr>Reply = (\<lambda>t n. (Inr (script ! n), Suc n)), EnableCache = id, DisableCache = id\<rparr>"

definition plain_metadata :: "gostring \<Rightarrow> gostring \<times> gostring" where
  "plain_metadata t = (go ''text'', t)"

definition no_fixups :: "gostring \<Rightarrow> gostring \<Rightarrow> gostring" where
  "no_fixups reply filetype = reply"

definition post :: "gostring \<Rightarrow> int \<Rightarrow> real \<Rightarrow> http_request" where
  "post t maxWords precision =
     \<lparr>Method = ''POST'',
      Body = Some \<lparr>Text = t, MaxWords = maxWords, Precision = precision, Context = [],
                   UseCache = False\<rparr>\<rparr>"

text \<open>
  The rows of \<^verbatim>\<open>edges\<close> with a given triple, \<open>n\<close> calls of \<^verbatim>\<open>AddEdge\<close> with the
  same arguments, one after the other and up to the first error, and a connection on which no
  statement to come fails.
\<close>

definition edge_hit :: "int \<Rightarrow> int \<Rightarrow> bool \<Rightarrow> edge_row \<Rightarrow> bool" where
  "edge_hit prevNode nextNode hasSpace e =
     (prev_node e = prevNode \<and> next_node e = nextNode \<and>
      has_space e = (if hasSpace then 1 else 0))"

fun AddEdge_times :: "nat \<Rightarrow> Graph \<Rightarrow> int \<Rightarrow> int \<Rightarrow> bool \<Rightarrow> error option \<times> Graph" where
  "AddEdge_times 0 g prevNode nextNode hasSpace = (None, g)"
| "AddEdge_times (Suc n) g prevNode nextNode hasSpace =
     (case AddEdge g prevNode nextNode hasSpace of
        (Some err, g') \<Rightarrow> (Some err, g')
      | (None, g') \<Rightarrow> AddEdge_times n g' prevNode nextNode hasSpace)"

definition no_faults :: "Graph \<Rightarrow> bool" where
  "no_faults g = list_all (\<lambda>f. \<not> f) (faults (Conn g))"

text \<open>Concrete stores.\<close>

definition demo_store :: Graph where
  "demo_store =
     \<lparr>Conn = \<lparr>tokens = [\<lparr>token_id = 1, token_text = go ''a'', is_word = 1\<rparr>],
              nodes = [], edges = [], faults = []\<rparr>,
      order = 2\<rparr>"

definition demo_edges :: Graph where
  "demo_edges =
     \<lparr>Conn = \<lparr>tokens = [], nodes = [],
              edges = [\<lparr>edge_id = 1, prev_node = 1, next_node = 2, has_space = 0, edge_count = 4\<rparr>],
              faults = []\<rparr>,
      order = 2\<rparr>"

text \<open>
  A dead end of the walk: every edge that leaves \<open>currentID\<close> in the direction of the walk
  comes back to it, so the walk has no candidate.
\<close>

definition dead_end :: "sqlDB \<Rightarrow> bool \<Rightarrow> int \<Rightarrow> bool" where
  "dead_end c direction currentID =
     (\<forall>e\<in>set (edges c). walk_from direction e = currentID \<longrightarrow> walk_to direction e = currentID)"

text \<open>
  \<open>chain c direction currentID path\<close>: the ids of \<open>path\<close> are edges of the store, the first one
  leaves \<open>currentID\<close>, each next one leaves the node the one before arrives at, and none is a
  self-loop. An id is looked up as \<^verbatim>\<open>SELECT ... FROM edges WHERE id = ?\<close> does.
\<close>

fun chain :: "sqlDB \<Rightarrow> bool \<Rightarrow> int \<Rightarrow> int list \<Rightarrow> bool" where
  "chain c direction currentID [] = True"
| "chain c direction currentID (eid # rest) =
     (case find (\<lambda>e. edge_id e = eid) (edges c) of
        None \<Rightarrow> False
      | Some e \<Rightarrow> walk_from direction e = currentID \<and> walk_to direction e \<noteq> walk_from direction e \<and>
                  chain c direction (walk_to direction e) rest)"

definition demo_cycle :: Graph where
  "demo_cycle =
     \<lparr>Conn = \<lparr>tokens = [], nodes = [],
              edges = [\<lparr>edge_id = 1, prev_node = 1, next_node = 2, has_space = 1, edge_count = 1\<rparr>,
                       \<lparr>edge_id = 2, prev_node = 2, next_node = 1, has_space = 1, edge_count = 1\<rparr>,
                       \<lparr>edge_id = 3, prev_node = 2, next_node = 2, has_space = 1, edge_count = 1\<rparr>],
              faults = []\<rparr>,
      order = 2\<rparr>"

text \<open>The three tables of a store: what a read-only operation leaves as it is.\<close>

definition tables :: "Graph \<Rightarrow> token_row list \<times> node_row list \<times> edge_row list" where
  "tables g = (tokens (Conn g), nodes (Conn g), edges (Conn g))"

text \<open>An empty store of order 2, and a store of order 2 with two nodes and an edge.\<close>

definition demo_empty :: Graph where
  "demo_empty = \<lparr>Conn = \<lparr>tokens = [], nodes = [], edges = [], faults = []\<rparr>, order = 2\<rparr>"

definition demo_nodes :: Graph where
  "demo_nodes =
     \<lparr>Conn = \<lparr>tokens = [],
              nodes = [\<lparr>node_id = 1, node_count = 0, token_ids = [1, 2]\<rparr>,
                       \<lparr>node_id = 2, node_count = 0, token_ids = [2, 3]\<rparr>],
              edges = [\<lparr>edge_id = 1, prev_node = 1, next_node = 2, has_space = 1, edge_count = 1\<rparr>],
              faults = []\<rparr>,
      order = 2\<rparr>"

section \<open>Words and word limits\<close>

lemma fields_scan_word:
  "\<forall>c\<in>set u. \<not> IsSpace c \<Longrightarrow> fields_scan w (u @ s) = fields_scan (w @ u) s"
  by (induction u arbitrary: w) auto

lemma fields_scan_fields:
  "\<forall>c\<in>set w. \<not> IsSpace c \<Longrightarrow>
   \<forall>f\<in>set (fields_scan w s). f \<noteq> [] \<and> (\<forall>c\<in>set f. \<not> IsSpace c)"
proof (induction s arbitrary: w)
  case Nil
  then show ?case by simp
next
  case (Cons c cs)
  have e: "\<forall>f\<in>set (fields_scan [] cs). f \<noteq> [] \<and> (\<forall>c\<in>set f. \<not> IsSpace c)"
    by (rule Cons.IH) simp
  show ?case
  proof (cases "IsSpace c")
    case True
    then show ?thesis using e Cons.prems by simp
  next
    case False
    then have "\<forall>x\<in>set (w @ [c]). \<not> IsSpace x" using Cons.prems by simp
    from Cons.IH[OF this] show ?thesis using False by simp
  qed
qed

lemma Fields_words: "\<forall>f\<in>set (Fields s). f \<noteq> [] \<and> (\<forall>c\<in>set f. \<not> IsSpace c)"
  unfolding Fields_def by (rule fields_scan_fields) simp

lemma IsSpace_32: "IsSpace 32" by (simp add: IsSpace_def)

lemma Fields_Join:
  "\<forall>w\<in>set ws. w \<noteq> [] \<and> (\<forall>c\<in>set w. \<not> IsSpace c) \<Longrightarrow> Fields (Join ws (go '' '')) = ws"
proof (induction ws "go '' ''" rule: Join.induct)
  case 1
  then show ?case by (simp add: Fields_def)
next
  case (2 a)
  then show ?case using fields_scan_word[of a "[]" "[]"] by (simp add: Fields_def)
next
  case (3 a b r)
  have "Fields (Join (a # b # r) (go '' '')) = fields_scan a (go '' '' @ Join (b # r) (go '' ''))"
    using 3(2) fields_scan_word[of a "[]"] by (simp add: Fields_def)
  also have "\<dots> = a # Fields (Join (b # r) (go '' ''))"
    using 3(2) by (simp add: go_def IsSpace_32 Fields_def)
  finally show ?case using 3 by simp
qed

lemma Fields_Join_take:
  "Fields (Join (take n (Fields s)) (go '' '')) = take n (Fields s)"
proof (rule Fields_Join)
  show "\<forall>w\<in>set (take n (Fields s)). w \<noteq> [] \<and> (\<forall>c\<in>set w. \<not> IsSpace c)"
    using Fields_words[of s] by (meson in_set_takeD)
qed

lemma limitWords_props:
  assumes "0 < maxWords"
  shows "int (length (Fields (limitWords text maxWords))) \<le> maxWords"
    and "int (length (Fields text)) > maxWords \<Longrightarrow>
           limitWords text maxWords = Join (take (nat maxWords) (Fields text)) (go '' '') \<and>
           Fields (limitWords text maxWords) = take (nat maxWords) (Fields text)"
    and "int (length (Fields text)) \<le> maxWords \<Longrightarrow> limitWords text maxWords = text"
  using assms by (auto simp: limitWords_def Let_def Fields_Join_take)

section \<open>The selection of a reply\<close>

lemma shortest_loop_inv:
  "sIdx < i \<Longrightarrow> i \<le> length replies \<Longrightarrow> sLen = length (Fields (replies ! sIdx)) \<Longrightarrow>
   \<forall>j<i. sLen \<le> length (Fields (replies ! j)) \<Longrightarrow>
   \<forall>j<sIdx. sLen < length (Fields (replies ! j)) \<Longrightarrow>
   shortest_loop replies i sIdx sLen < length replies \<and>
   (\<forall>j<length replies. length (Fields (replies ! shortest_loop replies i sIdx sLen)) \<le> length (Fields (replies ! j))) \<and>
   (\<forall>j<shortest_loop replies i sIdx sLen. length (Fields (replies ! shortest_loop replies i sIdx sLen)) < length (Fields (replies ! j)))"
proof (induction replies i sIdx sLen rule: shortest_loop.induct)
  case (1 replies i sIdx sLen)
  show ?case
  proof (cases "i < length replies")
    case False
    then have "shortest_loop replies i sIdx sLen = sIdx"
      by (subst shortest_loop.simps) simp
    moreover have "i = length replies" using False 1 by simp
    ultimately show ?thesis using 1(3-) by simp
  next
    case True
    note lt = True
    show ?thesis
    proof (cases "length (Fields (replies ! i)) < sLen")
      case True
      have eq: "shortest_loop replies i sIdx sLen = shortest_loop replies (i + 1) i (length (Fields (replies ! i)))"
        using lt True by (subst shortest_loop.simps) simp
      have a: "\<forall>j<i + 1. length (Fields (replies ! i)) \<le> length (Fields (replies ! j))"
      proof (intro allI impI)
        fix j assume "j < i + 1"
        then consider "j < i" | "j = i" by linarith
        then show "length (Fields (replies ! i)) \<le> length (Fields (replies ! j))"
          using True 1(6) by cases (auto simp: less_imp_le_nat order.trans)
      qed
      have b: "\<forall>j<i. length (Fields (replies ! i)) < length (Fields (replies ! j))"
        using True 1(6) by (auto simp: less_le_trans)
      show ?thesis unfolding eq
        by (rule 1(1)[OF lt refl True]) (use lt a b in simp_all)
    next
      case False
      have eq: "shortest_loop replies i sIdx sLen = shortest_loop replies (i + 1) sIdx sLen"
        using lt False by (subst shortest_loop.simps) simp
      have a: "\<forall>j<i + 1. sLen \<le> length (Fields (replies ! j))"
      proof (intro allI impI)
        fix j assume "j < i + 1"
        then consider "j < i" | "j = i" by linarith
        then show "sLen \<le> length (Fields (replies ! j))"
          using False 1(6) by cases auto
      qed
      show ?thesis unfolding eq
        by (rule 1(2)[OF lt refl False]) (use lt a 1(3-) in simp_all)
    qed
  qed
qed

lemma shortest_loop_spec:
  assumes "replies \<noteq> []"
  defines "k \<equiv> shortest_loop replies 1 0 (length (Fields (replies ! 0)))"
  shows "k < length replies"
    and "\<forall>j<length replies. word_count (replies ! k) \<le> word_count (replies ! j)"
    and "\<forall>j<k. word_count (replies ! k) < word_count (replies ! j)"
proof -
  have "0 < length replies" using assms by simp
  then have "k < length replies \<and>
   (\<forall>j<length replies. length (Fields (replies ! k)) \<le> length (Fields (replies ! j))) \<and>
   (\<forall>j<k. length (Fields (replies ! k)) < length (Fields (replies ! j)))"
    unfolding k_def
    by (intro shortest_loop_inv) (simp_all add: Suc_leI)
  then show "k < length replies"
    and "\<forall>j<length replies. word_count (replies ! k) \<le> word_count (replies ! j)"
    and "\<forall>j<k. word_count (replies ! k) < word_count (replies ! j)" 
    by (simp_all add: word_count_def)
qed

lemma sort_inner_length: "length (sort_inner i j xs) = length xs"
proof (induction i j xs rule: sort_inner.induct)
  case (1 i j xs)
  then show ?case by (subst sort_inner.simps) (simp split: if_splits)
qed

lemma sort_inner_mset: "i < length xs \<Longrightarrow> mset (sort_inner i j xs) = mset xs"
proof (induction i j xs rule: sort_inner.induct)
  case (1 i j xs)
  show ?case
  proof (cases "j < length xs")
    case False
    then show ?thesis by (subst sort_inner.simps) simp
  next
    case True
    let ?xs' = "if length' (xs ! i) > length' (xs ! j) then xs[i := xs ! j, j := xs ! i] else xs"
    have eq: "sort_inner i j xs = sort_inner i (j + 1) ?xs'"
      using True by (subst sort_inner.simps) simp
    have m: "mset ?xs' = mset xs"
      using True 1(2) by (simp add: mset_swap)
    have "mset (sort_inner i (j + 1) ?xs') = mset ?xs'"
      by (rule 1(1)[OF True]) (use 1(2) in simp)
    then show ?thesis using eq m by simp
  qed
qed

lemma sort_inner_prefix: "k < i \<Longrightarrow> i < j \<Longrightarrow> sort_inner i j xs ! k = xs ! k"
proof (induction i j xs rule: sort_inner.induct)
  case (1 i j xs)
  show ?case
  proof (cases "j < length xs")
    case False
    then show ?thesis by (subst sort_inner.simps) simp
  next
    case True
    let ?xs' = "if length' (xs ! i) > length' (xs ! j) then xs[i := xs ! j, j := xs ! i] else xs"
    have eq: "sort_inner i j xs = sort_inner i (j + 1) ?xs'"
      using True by (subst sort_inner.simps) simp
    have "sort_inner i (j + 1) ?xs' ! k = ?xs' ! k"
      by (rule 1(1)[OF True]) (use 1(2,3) in simp_all)
    moreover have "?xs' ! k = xs ! k" using 1(2,3) by simp
    ultimately show ?thesis using eq by simp
  qed
qed

lemma sort_inner_min:
  "i < j \<Longrightarrow> \<forall>k. i < k \<and> k < j \<and> k < length xs \<longrightarrow> length' (xs ! i) \<le> length' (xs ! k) \<Longrightarrow>
   \<forall>k. i < k \<and> k < length xs \<longrightarrow> length' (sort_inner i j xs ! i) \<le> length' (sort_inner i j xs ! k)"
proof (induction i j xs rule: sort_inner.induct)
  case (1 i j xs)
  note IH = 1(1) and ij = 1(2) and inv0 = 1(3)
  show ?case
  proof (cases "j < length xs")
    case False
    then have "sort_inner i j xs = xs" by (subst sort_inner.simps) simp
    then show ?thesis using inv0 False by auto
  next
    case True
    let ?xs' = "if length' (xs ! i) > length' (xs ! j) then xs[i := xs ! j, j := xs ! i] else xs"
    have eq: "sort_inner i j xs = sort_inner i (j + 1) ?xs'"
      using True by (subst sort_inner.simps) simp
    have len: "length ?xs' = length xs" by simp
    have inv: "\<forall>k. i < k \<and> k < j + 1 \<and> k < length ?xs' \<longrightarrow> length' (?xs' ! i) \<le> length' (?xs' ! k)"
    proof (intro allI impI)
      fix k assume k: "i < k \<and> k < j + 1 \<and> k < length ?xs'"
      then consider "k < j" | "k = j" by linarith
      then show "length' (?xs' ! i) \<le> length' (?xs' ! k)"
      proof cases
        case 1
        with k inv0 have "length' (xs ! i) \<le> length' (xs ! k)" using ij True by simp
        then show ?thesis using 1 k True ij by (auto simp: nth_list_update)
      next
        case 2
        then show ?thesis using True ij by (auto simp: nth_list_update)
      qed
    qed
    have "\<forall>k. i < k \<and> k < length ?xs' \<longrightarrow>
            length' (sort_inner i (j + 1) ?xs' ! i) \<le> length' (sort_inner i (j + 1) ?xs' ! k)"
      by (rule IH[OF True]) (use ij inv in simp_all)
    then show ?thesis unfolding eq len .
  qed
qed


lemma sort_inner_suffix:
  assumes "i < j" "i < length xs" "i \<le> b" "b < length xs"
  shows "\<exists>b'. i \<le> b' \<and> b' < length xs \<and> sort_inner i j xs ! b = xs ! b'"
proof -
  let ?ys = "sort_inner i j xs"
  have len: "length ?ys = length xs" by (rule sort_inner_length)
  have "take i ?ys = take i xs"
    by (rule nth_equalityI) (use len assms in \<open>simp_all add: sort_inner_prefix\<close>)
  moreover have "mset (take i ?ys) + mset (drop i ?ys) = mset (take i xs) + mset (drop i xs)"
    using sort_inner_mset[OF assms(2), of j] by (simp flip: mset_append)
  ultimately have "mset (drop i ?ys) = mset (drop i xs)" by simp
  then have "set (drop i ?ys) = set (drop i xs)" by (rule mset_eq_setD)
  moreover have "?ys ! b \<in> set (drop i ?ys)"
  proof -
    have "drop i ?ys ! (b - i) = ?ys ! b" using assms len by simp
    moreover have "b - i < length (drop i ?ys)" using assms len by simp
    ultimately show ?thesis by (metis nth_mem)
  qed
  ultimately have "?ys ! b \<in> set (drop i xs)" by simp
  then obtain m where "m < length (drop i xs)" "drop i xs ! m = ?ys ! b"
    by (auto simp: in_set_conv_nth)
  then have "i \<le> i + m \<and> i + m < length xs \<and> ?ys ! b = xs ! (i + m)"
    using assms by auto
  then show ?thesis by blast
qed

lemma sort_inner_step:
  assumes "prefix_done i xs" "i < length xs"
  shows "prefix_done (i + 1) (sort_inner i (i + 1) xs)"
  unfolding prefix_done_def
proof (intro allI impI)
  fix a b
  let ?ys = "sort_inner i (i + 1) xs"
  assume ab: "a < i + 1 \<and> a < b \<and> b < length ?ys"
  then have b: "b < length xs" by (simp add: sort_inner_length)
  consider "a < i" "b < i" | "a < i" "i \<le> b" | "a = i" using ab by linarith
  then show "length' (?ys ! a) \<le> length' (?ys ! b)"
  proof cases
    case 1
    then show ?thesis using assms(1) ab b by (simp add: sort_inner_prefix prefix_done_def)
  next
    case 2
    obtain b' where "i \<le> b'" "b' < length xs" "?ys ! b = xs ! b'"
      using sort_inner_suffix[of i "i + 1" xs b] assms(2) 2 b by auto
    then show ?thesis using assms(1) 2 by (simp add: sort_inner_prefix prefix_done_def)
  next
    case 3
    have "\<forall>k. i < k \<and> k < length xs \<longrightarrow> length' (?ys ! i) \<le> length' (?ys ! k)"
      by (rule sort_inner_min) simp_all
    then show ?thesis using 3 ab b by simp
  qed
qed

lemma sort_outer_length: "length (sort_outer i xs) = length xs"
proof (induction i xs rule: sort_outer.induct)
  case (1 i xs)
  then show ?case by (subst sort_outer.simps) (simp add: sort_inner_length)
qed

lemma sort_outer_mset: "mset (sort_outer i xs) = mset xs"
proof (induction i xs rule: sort_outer.induct)
  case (1 i xs)
  then show ?case by (subst sort_outer.simps) (simp add: sort_inner_mset)
qed

lemma sort_outer_done:
  "prefix_done i xs \<Longrightarrow> prefix_done (length xs) (sort_outer i xs)"
proof (induction i xs rule: sort_outer.induct)
  case (1 i xs)
  show ?case
  proof (cases "i < length xs")
    case True
    have "prefix_done (length (sort_inner i (i + 1) xs)) (sort_outer (i + 1) (sort_inner i (i + 1) xs))"
      by (rule 1(1)[OF True]) (rule sort_inner_step[OF 1(2) True])
    then show ?thesis using True by (subst sort_outer.simps) (simp add: sort_inner_length)
  next
    case False
    then have "sort_outer i xs = xs" by (subst sort_outer.simps) simp
    then show ?thesis using 1(2) False by (auto simp: prefix_done_def)
  qed
qed

lemma sortByLength_sorted:
  "sorted_wrt (\<lambda>a b. length' a \<le> length' b) (sortByLength xs)"
proof -
  have "prefix_done (length xs) (sortByLength xs)"
    unfolding sortByLength_def by (rule sort_outer_done) (simp add: prefix_done_def)
  then show ?thesis
    by (simp add: sorted_wrt_iff_nth_less prefix_done_def sortByLength_def sort_outer_length)
qed

lemma sortByLength_mset: "mset (sortByLength xs) = mset xs"
  by (simp add: sortByLength_def sort_outer_mset)

lemma successive_replies_length:
  "successive_replies brain t n b = (Inr rs, b') \<Longrightarrow> length rs = n"
  by (induction n arbitrary: b rs) (auto split: prod.splits sum.splits)

lemma generate_replies_eq:
  "i \<le> n \<Longrightarrow> length replies = n \<Longrightarrow>
   generate_replies brain t n i replies b =
     (case successive_replies brain t (n - i) b of
        (Inl err, b') \<Rightarrow> (Inl err, b')
      | (Inr rs, b') \<Rightarrow> (Inr (take i replies @ rs), b'))"
proof (induction brain t n i replies b rule: generate_replies.induct)
  case (1 brain t n i replies b)
  show ?case
  proof (cases "i < n")
    case False
    then have "i = n" using 1(2) by simp
    then show ?thesis using 1(3) by (subst generate_replies.simps) simp
  next
    case True
    then obtain m where m: "n - i = Suc m" "n - (i + 1) = m"
      by (metis Suc_diff_Suc Suc_eq_plus1 diff_diff_left)
    show ?thesis
    proof (cases "Reply brain t b")
      case (Pair res b')
      show ?thesis
      proof (cases res)
        case (Inl err)
        then show ?thesis using True Pair m by (subst generate_replies.simps) simp
      next
        case (Inr r)
        have "generate_replies brain t n (i + 1) (replies[i := r]) b' =
              (case successive_replies brain t (n - (i + 1)) b' of
                 (Inl err, b'') \<Rightarrow> (Inl err, b'')
               | (Inr rs, b'') \<Rightarrow> (Inr (take (i + 1) (replies[i := r]) @ rs), b''))"
          by (rule 1(1)[OF True Pair[symmetric] Inr]) (use True 1(3) in simp_all)
        moreover have "take (i + 1) (replies[i := r]) = take i replies @ [r]"
          using True 1(3) by (simp add: take_Suc_conv_app_nth)
        ultimately show ?thesis using True Pair Inr m
          by (subst generate_replies.simps) (simp split: prod.splits sum.splits)
      qed
    qed
  qed
qed

lemma generate_replies_all:
  "generate_replies brain t n 0 (replicate n []) b = successive_replies brain t n b"
  using generate_replies_eq[of 0 n "replicate n []" brain t b]
  by (simp split: prod.splits sum.splits)

lemma select_high:
  assumes "2 \<le> length replies" "precision > 0.9"
  shows "\<exists>k. first_fewest_words replies k \<and> selectReplyByPrecision replies precision rnd = replies ! k"
proof -
  have ne: "replies \<noteq> []" using assms(1) by (cases replies) simp_all
  let ?k = "shortest_loop replies 1 0 (length (Fields (replies ! 0)))"
  have "first_fewest_words replies ?k"
    unfolding first_fewest_words_def using shortest_loop_spec[OF ne] by simp
  moreover have "selectReplyByPrecision replies precision rnd = replies ! ?k"
  proof -
    have "length replies \<noteq> 0" "length replies \<noteq> 1" using assms(1) by linarith+
    then show ?thesis using assms(2) by (simp only: selectReplyByPrecision_def if_False if_True)
  qed
  ultimately show ?thesis by blast
qed

lemma indexed_member:
  "e \<in> set (map (\<lambda>i. \<lparr>idx = i, length' = map (\<lambda>reply. length (Fields reply)) replies ! i\<rparr>)
                 [0..<length (map (\<lambda>reply. length (Fields reply)) replies)]) \<Longrightarrow>
   length' e = word_count (replies ! idx e)"
proof -
  assume "e \<in> set (map (\<lambda>i. \<lparr>idx = i, length' = map (\<lambda>reply. length (Fields reply)) replies ! i\<rparr>)
                 [0..<length (map (\<lambda>reply. length (Fields reply)) replies)])"
  then obtain i where i: "i < length replies"
      "e = \<lparr>idx = i, length' = map (\<lambda>reply. length (Fields reply)) replies ! i\<rparr>"
    by auto
  then show ?thesis by (simp add: word_count_def)
qed

lemma select_medium:
  assumes "2 \<le> length replies" "0.7 < precision" "precision \<le> 0.9"
  shows "\<exists>sorted. mset sorted = mset replies \<and>
           sorted_wrt (\<lambda>a b. word_count a \<le> word_count b) sorted \<and>
           selectReplyByPrecision replies precision rnd = sorted ! (length replies div 2)"
proof -
  let ?n = "length replies"
  let ?lengths = "map (\<lambda>reply. length (Fields reply)) replies"
  let ?il = "map (\<lambda>i. \<lparr>idx = i, length' = ?lengths ! i\<rparr>) [0..<length ?lengths]"
  let ?S = "sortByLength ?il"
  let ?f = "\<lambda>e. replies ! idx e"
  have len: "length ?S = ?n" by (simp add: sortByLength_def sort_outer_length)
  have ms: "mset ?S = mset ?il" by (rule sortByLength_mset)
  have "map ?f ?il = map (\<lambda>i. replies ! i) [0..<?n]" by simp
  also have "\<dots> = replies" by (rule map_nth)
  finally have fil: "map ?f ?il = replies" .
  have "mset (map ?f ?S) = mset (map ?f ?il)" by (simp only: mset_map ms)
  then have m: "mset (map ?f ?S) = mset replies" by (simp only: fil)
  have st: "set ?S = set ?il" using ms by (rule mset_eq_setD)
  have el: "length' e = word_count (?f e)" if "e \<in> set ?S" for e
    by (rule indexed_member) (use that st in blast)
  have "sorted_wrt (\<lambda>a b. length' a \<le> length' b) ?S" by (rule sortByLength_sorted)
  then have "sorted_wrt (\<lambda>a b. word_count (?f a) \<le> word_count (?f b)) ?S"
  proof (rule sorted_wrt_mono_rel[rotated])
    fix x y assume "x \<in> set ?S" "y \<in> set ?S" "length' x \<le> length' y"
    then show "word_count (?f x) \<le> word_count (?f y)" using el[of x] el[of y] by (simp only:)
  qed
  then have s: "sorted_wrt (\<lambda>a b. word_count a \<le> word_count b) (map ?f ?S)"
    by (simp only: sorted_wrt_map)
  have "?n div 2 < ?n" using assms(1) by simp
  then have "map ?f ?S ! (?n div 2) = ?f (?S ! (?n div 2))" using len by (simp only: nth_map)
  moreover have "selectReplyByPrecision replies precision rnd = ?f (?S ! (length ?S div 2))"
  proof -
    have "length replies \<noteq> 0" "length replies \<noteq> 1" "\<not> precision > 0.9"
      using assms by linarith+
    then show ?thesis using assms(2)
      by (simp only: selectReplyByPrecision_def if_False if_True Let_def)
  qed
  ultimately have "selectReplyByPrecision replies precision rnd = map ?f ?S ! (?n div 2)"
    using len by (simp only:)
  with m s show ?thesis by blast
qed

lemma effective_precision_high: "p > 0.9 \<Longrightarrow> effective_precision p > 0.9 \<and> effective_precision p > 0.7"
  by (simp add: effective_precision_def Let_def)

lemma effective_precision_medium: "0.7 < p \<Longrightarrow> p \<le> 0.9 \<Longrightarrow> effective_precision p = p"
  by (simp add: effective_precision_def Let_def)

lemma Predict_several:
  assumes "Method r = ''POST''" "Body r = Some req" "effective_precision (Precision req) > 0.7"
  shows "Predict brain extractCodeMetadata fixups rnd r b0 =
    (case successive_replies brain (snd (extractCodeMetadata (Text req)))
            (if effective_precision (Precision req) > 0.9 then 5 else 3)
            (if UseCache req then EnableCache brain b0 else DisableCache brain b0) of
       (Inl err, b') \<Rightarrow> (HttpError ''Failed to generate reply'' 500, b')
     | (Inr replies, b') \<Rightarrow>
         (ResponsePayload (finish_reply fixups (fst (extractCodeMetadata (Text req))) (MaxWords req)
            (selectReplyByPrecision replies (effective_precision (Precision req)) rnd)), b'))"
  using assms
  by (simp add: Predict_def Let_def generate_replies_all split: prod.splits sum.splits)

lemma finish_reply_plain:
  "maxWords \<le> 0 \<Longrightarrow> finish_reply fixups (go ''text'') maxWords reply = reply"
  by (simp add: finish_reply_def postProcessCodeReply_def)

text \<open>
  C3. A request with precision above 0.9 makes the handler ask the brain for exactly five
  replies, one call after the other (a failing call ends the request with status 500). Of the
  five candidates it selects the one with the fewest words, the earliest one among equals; the
  response carries that candidate after the end of the handler (post-processing for a code
  filetype, word limit), and the candidate itself for the filetype \<^verbatim>\<open>"text"\<close> without
  a word limit.
\<close>

theorem Predict_high_precision:
  assumes "Method r = ''POST''" and "Body r = Some req" and "Precision req > 0.9"
  shows "case successive_replies brain (snd (extractCodeMetadata (Text req))) 5
                (if UseCache req then EnableCache brain b else DisableCache brain b) of
           (Inl err, b') \<Rightarrow>
             Predict brain extractCodeMetadata fixups rnd r b =
               (HttpError ''Failed to generate reply'' 500, b')
         | (Inr candidates, b') \<Rightarrow>
             length candidates = 5 \<and>
             (\<exists>k. first_fewest_words candidates k \<and>
                  Predict brain extractCodeMetadata fixups rnd r b =
                    (ResponsePayload (finish_reply fixups (fst (extractCodeMetadata (Text req)))
                                        (MaxWords req) (candidates ! k)), b') \<and>
                  (fst (extractCodeMetadata (Text req)) = go ''text'' \<and> MaxWords req \<le> 0 \<longrightarrow>
                   Predict brain extractCodeMetadata fixups rnd r b =
                     (ResponsePayload (candidates ! k), b')))"
proof -
  let ?t = "snd (extractCodeMetadata (Text req))"
  let ?b1 = "if UseCache req then EnableCache brain b else DisableCache brain b"
  let ?p = "effective_precision (Precision req)"
  have p: "?p > 0.9" "?p > 0.7" using effective_precision_high[OF assms(3)] by simp_all
  have P: "Predict brain extractCodeMetadata fixups rnd r b =
    (case successive_replies brain ?t 5 ?b1 of
       (Inl err, b') \<Rightarrow> (HttpError ''Failed to generate reply'' 500, b')
     | (Inr replies, b') \<Rightarrow>
         (ResponsePayload (finish_reply fixups (fst (extractCodeMetadata (Text req))) (MaxWords req)
            (selectReplyByPrecision replies ?p rnd)), b'))"
    using Predict_several[OF assms(1,2) p(2), of brain extractCodeMetadata fixups rnd b]
    by (simp only: p(1) if_True)
  show ?thesis
  proof (cases "successive_replies brain ?t 5 ?b1")
    case (Pair res b')
    show ?thesis
    proof (cases res)
      case (Inl err)
      have "Predict brain extractCodeMetadata fixups rnd r b =
              (HttpError ''Failed to generate reply'' 500, b')"
        unfolding P Pair Inl by (simp only: prod.case sum.case)
      then show ?thesis unfolding Pair Inl by (simp only: prod.case sum.case)
    next
      case (Inr candidates)
      have len: "length candidates = 5"
        by (rule successive_replies_length[of brain ?t 5 ?b1 candidates b']) (simp only: Pair Inr)
      then have "2 \<le> length candidates" by simp
      from select_high[OF this p(1), of rnd]
      obtain k where k: "first_fewest_words candidates k"
          "selectReplyByPrecision candidates ?p rnd = candidates ! k"
        by blast
      have e: "Predict brain extractCodeMetadata fixups rnd r b =
              (ResponsePayload (finish_reply fixups (fst (extractCodeMetadata (Text req)))
                                  (MaxWords req) (candidates ! k)), b')"
        unfolding P Pair Inr by (simp only: prod.case sum.case k(2))
      have f: "fst (extractCodeMetadata (Text req)) = go ''text'' \<and> MaxWords req \<le> 0 \<longrightarrow>
                 Predict brain extractCodeMetadata fixups rnd r b =
                   (ResponsePayload (candidates ! k), b')"
      proof (intro impI)
        assume a: "fst (extractCodeMetadata (Text req)) = go ''text'' \<and> MaxWords req \<le> 0"
        then have "finish_reply fixups (fst (extractCodeMetadata (Text req))) (MaxWords req)
                     (candidates ! k) = candidates ! k"
          by (simp only: finish_reply_plain)
        then show "Predict brain extractCodeMetadata fixups rnd r b =
                   (ResponsePayload (candidates ! k), b')"
          using e by (simp only:)
      qed
      have "length candidates = 5 \<and>
             (\<exists>k. first_fewest_words candidates k \<and>
                  Predict brain extractCodeMetadata fixups rnd r b =
                    (ResponsePayload (finish_reply fixups (fst (extractCodeMetadata (Text req)))
                                        (MaxWords req) (candidates ! k)), b') \<and>
                  (fst (extractCodeMetadata (Text req)) = go ''text'' \<and> MaxWords req \<le> 0 \<longrightarrow>
                   Predict brain extractCodeMetadata fixups rnd r b =
                     (ResponsePayload (candidates ! k), b')))"
        by (intro conjI exI[of _ k]) (rule len k(1) e f)+
      then show ?thesis unfolding Pair Inr by (simp only: prod.case sum.case)
    qed
  qed
qed

theorem Predict_high_precision_witness:
  "Method (post (go ''hello'') 0 0.95) = ''POST'' \<and>
   Predict (scripted_brain [go ''a b'', go ''b'', go ''c'', go ''a b c'', go ''d''])
      plain_metadata no_fixups 0 (post (go ''hello'') 0 0.95) 0 =
     (ResponsePayload (go ''b''), 5)"
proof -
  let ?req = "\<lparr>Text = go ''hello'', MaxWords = 0, Precision = 0.95, Context = [], UseCache = False\<rparr>"
  let ?cs = "[go ''a b'', go ''b'', go ''c'', go ''a b c'', go ''d'']"
  let ?P = "Predict (scripted_brain ?cs) plain_metadata no_fixups 0 (post (go ''hello'') 0 0.95) 0"
  have h1: "Method (post (go ''hello'') 0 0.95) = ''POST''" by (simp add: post_def)
  have h2: "Body (post (go ''hello'') 0 0.95) = Some ?req" by (simp add: post_def)
  have h3: "Precision ?req > 0.9" by simp
  note T = Predict_high_precision[OF h1 h2 h3,
      where brain = "scripted_brain ?cs"
        and extractCodeMetadata = plain_metadata and fixups = no_fixups and rnd = 0 and b = 0]
  have t: "snd (plain_metadata (Text ?req)) = go ''hello''"
    and ft: "fst (plain_metadata (Text ?req)) = go ''text''"
    and mw: "MaxWords ?req \<le> 0"
    by (simp_all add: plain_metadata_def)
  have b1: "(if UseCache ?req then EnableCache (scripted_brain ?cs) 0
             else DisableCache (scripted_brain ?cs) 0) = (0::nat)"
    by (simp add: scripted_brain_def)
  have s: "successive_replies (scripted_brain ?cs) (go ''hello'') 5 0 = (Inr ?cs, 5)"
    by (simp add: eval_nat_numeral scripted_brain_def)
  have "case (Inr ?cs :: unit + gostring list, 5::nat) of
      (Inl err, b') \<Rightarrow> ?P = (HttpError ''Failed to generate reply'' 500, b')
    | (Inr candidates, b') \<Rightarrow>
        length candidates = 5 \<and>
        (\<exists>k. first_fewest_words candidates k \<and>
             ?P = (ResponsePayload (finish_reply no_fixups (go ''text'') (MaxWords ?req)
                                      (candidates ! k)), b') \<and>
             (go ''text'' = go ''text'' \<and> MaxWords ?req \<le> 0 \<longrightarrow>
              ?P = (ResponsePayload (candidates ! k), b')))"
    using T by (simp only: t ft b1 s)
  then obtain k where k: "first_fewest_words ?cs k"
     and "go ''text'' = go ''text'' \<and> MaxWords ?req \<le> 0 \<longrightarrow> ?P = (ResponsePayload (?cs ! k), 5)"
    by (simp only: prod.case sum.case) blast
  then have Pk: "?P = (ResponsePayload (?cs ! k), 5)" using mw by blast
  have wc: "map word_count ?cs = [2, 1, 1, 3, 1]"
    by (simp add: word_count_def Fields_def go_def IsSpace_def)
  have fw: "k < length ?cs"
      "\<forall>j<length ?cs. word_count (?cs ! k) \<le> word_count (?cs ! j)"
      "\<forall>j<k. word_count (?cs ! k) < word_count (?cs ! j)"
    using k unfolding first_fewest_words_def by blast+
  have k5: "k < 5" using fw(1) by simp
  have a: "word_count (?cs ! k) \<le> word_count (?cs ! 1)"
    using fw(2)[rule_format, of 1] by simp
  have b: "1 < k \<Longrightarrow> word_count (?cs ! k) < word_count (?cs ! 1)"
    using fw(3)[rule_format, of 1] by simp
  consider "k = 0" | "k = 1" | "k = 2" | "k = 3" | "k = 4" using k5 by linarith
  then have "k = 1"
  proof cases
    case 1 then show ?thesis using a wc by simp
  next
    case 2 then show ?thesis .
  next
    case 3 then show ?thesis using b wc by simp
  next
    case 4 then show ?thesis using a wc by simp
  next
    case 5 then show ?thesis using b wc by simp
  qed
  then show ?thesis using Pk h1 by simp
qed

text \<open>
  C4. A request with a precision above 0.7 and at most 0.9 makes the handler ask the brain for
  exactly three replies, one call after the other (a failing call ends the request with status
  500). The handler sorts the three candidates by their number of words and selects the element
  at index \<open>count div 2\<close> of the sorted order, the median; the response carries it after the
  end of the handler, and the candidate itself for the filetype \<^verbatim>\<open>"text"\<close> without a
  word limit.
\<close>

theorem Predict_medium_precision:
  assumes "Method r = ''POST''" and "Body r = Some req"
    and "0.7 < Precision req" and "Precision req \<le> 0.9"
  shows "case successive_replies brain (snd (extractCodeMetadata (Text req))) 3
                (if UseCache req then EnableCache brain b else DisableCache brain b) of
           (Inl err, b') \<Rightarrow>
             Predict brain extractCodeMetadata fixups rnd r b =
               (HttpError ''Failed to generate reply'' 500, b')
         | (Inr candidates, b') \<Rightarrow>
             length candidates = 3 \<and>
             (\<exists>sorted. mset sorted = mset candidates \<and>
                  sorted_wrt (\<lambda>x y. word_count x \<le> word_count y) sorted \<and>
                  Predict brain extractCodeMetadata fixups rnd r b =
                    (ResponsePayload (finish_reply fixups (fst (extractCodeMetadata (Text req)))
                                        (MaxWords req) (sorted ! (length candidates div 2))), b') \<and>
                  (fst (extractCodeMetadata (Text req)) = go ''text'' \<and> MaxWords req \<le> 0 \<longrightarrow>
                   Predict brain extractCodeMetadata fixups rnd r b =
                     (ResponsePayload (sorted ! (length candidates div 2)), b')))"
proof -
  let ?t = "snd (extractCodeMetadata (Text req))"
  let ?b1 = "if UseCache req then EnableCache brain b else DisableCache brain b"
  let ?p = "effective_precision (Precision req)"
  have pe: "?p = Precision req" by (rule effective_precision_medium[OF assms(3,4)])
  have p: "?p > 0.7" "\<not> ?p > 0.9" "?p \<le> 0.9" using assms(3,4) unfolding pe by simp_all
  have P: "Predict brain extractCodeMetadata fixups rnd r b =
    (case successive_replies brain ?t 3 ?b1 of
       (Inl err, b') \<Rightarrow> (HttpError ''Failed to generate reply'' 500, b')
     | (Inr replies, b') \<Rightarrow>
         (ResponsePayload (finish_reply fixups (fst (extractCodeMetadata (Text req))) (MaxWords req)
            (selectReplyByPrecision replies ?p rnd)), b'))"
    using Predict_several[OF assms(1,2) p(1), of brain extractCodeMetadata fixups rnd b]
    by (simp only: p(2) if_False)
  show ?thesis
  proof (cases "successive_replies brain ?t 3 ?b1")
    case (Pair res b')
    show ?thesis
    proof (cases res)
      case (Inl err)
      have "Predict brain extractCodeMetadata fixups rnd r b =
              (HttpError ''Failed to generate reply'' 500, b')"
        unfolding P Pair Inl by (simp only: prod.case sum.case)
      then show ?thesis unfolding Pair Inl by (simp only: prod.case sum.case)
    next
      case (Inr candidates)
      have len: "length candidates = 3"
        by (rule successive_replies_length[of brain ?t 3 ?b1 candidates b']) (simp only: Pair Inr)
      then have "2 \<le> length candidates" by simp
      from select_medium[OF this p(1) p(3), of rnd]
      obtain sorted where k: "mset sorted = mset candidates"
          "sorted_wrt (\<lambda>x y. word_count x \<le> word_count y) sorted"
          "selectReplyByPrecision candidates ?p rnd = sorted ! (length candidates div 2)"
        by blast
      have e: "Predict brain extractCodeMetadata fixups rnd r b =
              (ResponsePayload (finish_reply fixups (fst (extractCodeMetadata (Text req)))
                                  (MaxWords req) (sorted ! (length candidates div 2))), b')"
        unfolding P Pair Inr by (simp only: prod.case sum.case k(3))
      have f: "fst (extractCodeMetadata (Text req)) = go ''text'' \<and> MaxWords req \<le> 0 \<longrightarrow>
                 Predict brain extractCodeMetadata fixups rnd r b =
                   (ResponsePayload (sorted ! (length candidates div 2)), b')"
      proof (intro impI)
        assume a: "fst (extractCodeMetadata (Text req)) = go ''text'' \<and> MaxWords req \<le> 0"
        then have "finish_reply fixups (fst (extractCodeMetadata (Text req))) (MaxWords req)
                     (sorted ! (length candidates div 2)) = sorted ! (length candidates div 2)"
          by (simp only: finish_reply_plain)
        then show "Predict brain extractCodeMetadata fixups rnd r b =
                   (ResponsePayload (sorted ! (length candidates div 2)), b')"
          using e by (simp only:)
      qed
      have R: "length candidates = 3 \<and>
             (\<exists>sorted. mset sorted = mset candidates \<and>
                  sorted_wrt (\<lambda>x y. word_count x \<le> word_count y) sorted \<and>
                  Predict brain extractCodeMetadata fixups rnd r b =
                    (ResponsePayload (finish_reply fixups (fst (extractCodeMetadata (Text req)))
                                        (MaxWords req) (sorted ! (length candidates div 2))), b') \<and>
                  (fst (extractCodeMetadata (Text req)) = go ''text'' \<and> MaxWords req \<le> 0 \<longrightarrow>
                   Predict brain extractCodeMetadata fixups rnd r b =
                     (ResponsePayload (sorted ! (length candidates div 2)), b')))"
        by (intro conjI exI[of _ sorted]) (rule len k(1) k(2) e f)+
      show ?thesis unfolding Pair Inr prod.case sum.case by (rule R)
    qed
  qed
qed

theorem Predict_medium_precision_witness:
  "Method (post (go ''hello'') 0 0.8) = ''POST'' \<and> (0.7::real) < 0.8 \<and> (0.8::real) \<le> 0.9 \<and>
   Predict (scripted_brain [go ''a b c'', go ''a'', go ''a b''])
      plain_metadata no_fixups 0 (post (go ''hello'') 0 0.8) 0 =
     (ResponsePayload (go ''a b''), 3)"
proof -
  let ?req = "\<lparr>Text = go ''hello'', MaxWords = 0, Precision = 0.8, Context = [], UseCache = False\<rparr>"
  let ?cs = "[go ''a b c'', go ''a'', go ''a b'']"
  let ?P = "Predict (scripted_brain ?cs) plain_metadata no_fixups 0 (post (go ''hello'') 0 0.8) 0"
  have h1: "Method (post (go ''hello'') 0 0.8) = ''POST''" by (simp add: post_def)
  have h2: "Body (post (go ''hello'') 0 0.8) = Some ?req" by (simp add: post_def)
  have h3: "0.7 < Precision ?req" and h4: "Precision ?req \<le> 0.9" by simp_all
  note T = Predict_medium_precision[OF h1 h2 h3 h4,
      where brain = "scripted_brain ?cs"
        and extractCodeMetadata = plain_metadata and fixups = no_fixups and rnd = 0 and b = 0]
  have t: "snd (plain_metadata (Text ?req)) = go ''hello''"
    and ft: "fst (plain_metadata (Text ?req)) = go ''text''"
    and mw: "MaxWords ?req \<le> 0"
    by (simp_all add: plain_metadata_def)
  have b1: "(if UseCache ?req then EnableCache (scripted_brain ?cs) 0
             else DisableCache (scripted_brain ?cs) 0) = (0::nat)"
    by (simp add: scripted_brain_def)
  have s: "successive_replies (scripted_brain ?cs) (go ''hello'') 3 0 = (Inr ?cs, 3)"
    by (simp add: eval_nat_numeral scripted_brain_def)
  have "case (Inr ?cs :: unit + gostring list, 3::nat) of
      (Inl err, b') \<Rightarrow> ?P = (HttpError ''Failed to generate reply'' 500, b')
    | (Inr candidates, b') \<Rightarrow>
        length candidates = 3 \<and>
        (\<exists>sorted. mset sorted = mset candidates \<and>
             sorted_wrt (\<lambda>x y. word_count x \<le> word_count y) sorted \<and>
             ?P = (ResponsePayload (finish_reply no_fixups (go ''text'') (MaxWords ?req)
                                      (sorted ! (length candidates div 2))), b') \<and>
             (go ''text'' = go ''text'' \<and> MaxWords ?req \<le> 0 \<longrightarrow>
              ?P = (ResponsePayload (sorted ! (length candidates div 2)), b')))"
    using T by (simp only: t ft b1 s)
  then obtain ordered where m: "mset ordered = mset ?cs"
     and so: "sorted_wrt (\<lambda>x y. word_count x \<le> word_count y) ordered"
     and "go ''text'' = go ''text'' \<and> MaxWords ?req \<le> 0 \<longrightarrow>
            ?P = (ResponsePayload (ordered ! (length ?cs div 2)), 3)"
    unfolding prod.case sum.case by blast
  then have Pk: "?P = (ResponsePayload (ordered ! 1), 3)" using mw by simp
  have wc: "map word_count ?cs = [3, 1, 2]"
    by (simp add: word_count_def Fields_def go_def IsSpace_def)
  have "mset (map word_count ordered) = mset (map word_count ?cs)"
    using m by (simp only: mset_map)
  moreover have "sorted (map word_count ordered)" using so by (simp only: sorted_map)
  ultimately have "sort (map word_count ?cs) = map word_count ordered"
    by (rule properties_for_sort)
  then have ws: "map word_count ordered = [1, 2, 3]" unfolding wc by simp
  then have w1: "word_count (ordered ! 1) = 2"
    by (metis length_map nth_map nth_Cons_0 nth_Cons_Suc One_nat_def length_Cons lessI Suc_less_eq zero_less_Suc)
  have "length ordered = 3" using ws by (metis length_map length_Cons list.size(3) numeral_3_eq_3)
  then have "ordered ! 1 \<in> set ordered" by simp
  then have "ordered ! 1 \<in> set ?cs" using m by (metis mset_eq_setD)
  then have "ordered ! 1 = go ''a b''"
    using w1 wc by auto
  then show ?thesis using Pk h1 by simp
qed

lemma Predict_response:
  assumes "Predict brain extractCodeMetadata fixups rnd r b = (ResponsePayload out, b')"
    and "Body r = Some req"
  shows "\<exists>reply. out = finish_reply fixups (fst (extractCodeMetadata (Text req))) (MaxWords req) reply"
proof -
  obtain filetype processedText where e: "extractCodeMetadata (Text req) = (filetype, processedText)"
    by (cases "extractCodeMetadata (Text req)")
  let ?b1 = "if UseCache req then EnableCache brain b else DisableCache brain b"
  let ?p = "effective_precision (Precision req)"
  let ?gen = "if ?p > 0.7 then
                (let numResponses = (if ?p > 0.9 then 5 else 3) in
                 case generate_replies brain processedText numResponses 0
                        (replicate numResponses []) ?b1 of
                   (Inl err, b') \<Rightarrow> (Inl err, b')
                 | (Inr replies, b') \<Rightarrow> (Inr (selectReplyByPrecision replies ?p rnd), b'))
              else Reply brain processedText ?b1"
  obtain generated b2 where g: "?gen = (generated, b2)" by (cases ?gen)
  have m: "Method r = ''POST''"
    using assms(1) by (cases "Method r = ''POST''") (simp_all add: Predict_def)
  have P: "Predict brain extractCodeMetadata fixups rnd r b =
           (case generated of
              Inl err \<Rightarrow> (HttpError ''Failed to generate reply'' 500, b2)
            | Inr reply \<Rightarrow> (ResponsePayload (finish_reply fixups filetype (MaxWords req) reply), b2))"
    unfolding Predict_def using m assms(2) e g by (simp add: Let_def)
  show ?thesis
  proof (cases generated)
    case (Inl err)
    then show ?thesis using P assms(1) by simp
  next
    case (Inr reply)
    then have "out = finish_reply fixups filetype (MaxWords req) reply" using P assms(1) by simp
    then show ?thesis using e by auto
  qed
qed

lemma Predict_generation:
  assumes "Method r = ''POST''" "Body r = Some req"
  shows "Predict brain extractCodeMetadata fixups rnd r b =
    (case generation brain extractCodeMetadata rnd req b of
       (Inl err, b') \<Rightarrow> (HttpError ''Failed to generate reply'' 500, b')
     | (Inr generated, b') \<Rightarrow>
         (ResponsePayload (finish_reply fixups (fst (extractCodeMetadata (Text req))) (MaxWords req)
            generated), b'))"
proof (cases "effective_precision (Precision req) > 0.7")
  case True
  have g: "generation brain extractCodeMetadata rnd req b =
    (case successive_replies brain (snd (extractCodeMetadata (Text req)))
            (if effective_precision (Precision req) > 0.9 then 5 else 3)
            (if UseCache req then EnableCache brain b else DisableCache brain b) of
       (Inl err, b') \<Rightarrow> (Inl err, b')
     | (Inr candidates, b') \<Rightarrow>
         (Inr (selectReplyByPrecision candidates (effective_precision (Precision req)) rnd), b'))"
    using True by (simp only: generation_def Let_def if_True)
  show ?thesis
    unfolding Predict_several[OF assms True] g
    by (simp split: prod.splits sum.splits)
next
  case False
  obtain ft pt where e: "extractCodeMetadata (Text req) = (ft, pt)"
    by (cases "extractCodeMetadata (Text req)")
  let ?b1 = "if UseCache req then EnableCache brain b else DisableCache brain b"
  obtain res b2 where rp: "Reply brain pt ?b1 = (res, b2)" by (cases "Reply brain pt ?b1")
  have g: "generation brain extractCodeMetadata rnd req b = (res, b2)"
    using False e rp by (simp add: generation_def Let_def)
  have "Predict brain extractCodeMetadata fixups rnd r b =
     (case res of
        Inl err \<Rightarrow> (HttpError ''Failed to generate reply'' 500, b2)
      | Inr reply \<Rightarrow> (ResponsePayload (finish_reply fixups ft (MaxWords req) reply), b2))"
    using assms False e rp by (simp add: Predict_def Let_def)
  then show ?thesis unfolding g using e by (simp split: sum.splits)
qed

text \<open>
  C8. For every reply and every \<open>max_words > 0\<close>: the limited reply has at most
  \<open>max_words\<close> words; a reply with more words is cut to its first \<open>max_words\<close> words,
  joined by single spaces, with nothing appended; a reply with at most \<open>max_words\<close> words is
  returned as it is. For a POST request with \<open>max_words > 0\<close> the reply the handler returns
  is exactly the reply it generated (post-processed for its filetype) with this limit applied,
  so it has at most \<open>max_words\<close> words; an error of the brain gives status 500.
\<close>

theorem limitWords_bound:
  assumes "0 < maxWords"
  shows "int (word_count (limitWords s maxWords)) \<le> maxWords \<and>
         (maxWords < int (word_count s) \<longrightarrow>
            limitWords s maxWords = Join (take (nat maxWords) (Fields s)) (go '' '') \<and>
            Fields (limitWords s maxWords) = take (nat maxWords) (Fields s)) \<and>
         (int (word_count s) \<le> maxWords \<longrightarrow> limitWords s maxWords = s) \<and>
         finish_reply fixups filetype maxWords reply =
           limitWords (postProcessCodeReply fixups reply filetype) maxWords \<and>
         (Body r = Some req \<and> MaxWords req = maxWords \<and>
          Predict brain extractCodeMetadata fixups rnd r b = (ResponsePayload out, b') \<longrightarrow>
            int (word_count out) \<le> maxWords) \<and>
         (Method r = ''POST'' \<and> Body r = Some req \<and> MaxWords req = maxWords \<longrightarrow>
            (case generation brain extractCodeMetadata rnd req b of
               (Inl err, b2) \<Rightarrow>
                 Predict brain extractCodeMetadata fixups rnd r b =
                   (HttpError ''Failed to generate reply'' 500, b2)
             | (Inr generated, b2) \<Rightarrow>
                 Predict brain extractCodeMetadata fixups rnd r b =
                   (ResponsePayload
                      (limitWords (postProcessCodeReply fixups generated
                                     (fst (extractCodeMetadata (Text req)))) maxWords), b2)))"
proof -
  note L = limitWords_props[OF assms]
  have 1: "int (word_count (limitWords s maxWords)) \<le> maxWords" for s
    using L(1)[of s] by (simp only: word_count_def)
  have 2: "maxWords < int (word_count s) \<longrightarrow>
            limitWords s maxWords = Join (take (nat maxWords) (Fields s)) (go '' '') \<and>
            Fields (limitWords s maxWords) = take (nat maxWords) (Fields s)"
    using L(2)[of s] by (simp only: word_count_def) blast
  have 3: "int (word_count s) \<le> maxWords \<longrightarrow> limitWords s maxWords = s"
    using L(3)[of s] by (simp only: word_count_def) blast
  have 4: "finish_reply fixups filetype maxWords reply =
           limitWords (postProcessCodeReply fixups reply filetype) maxWords" for reply filetype
    using assms by (simp add: finish_reply_def Let_def)
  have 5: "Body r = Some req \<and> MaxWords req = maxWords \<and>
          Predict brain extractCodeMetadata fixups rnd r b = (ResponsePayload out, b') \<longrightarrow>
            int (word_count out) \<le> maxWords"
  proof (intro impI, elim conjE)
    assume a: "Body r = Some req" "MaxWords req = maxWords"
      "Predict brain extractCodeMetadata fixups rnd r b = (ResponsePayload out, b')"
    from Predict_response[OF a(3) a(1)] obtain reply' where
      "out = finish_reply fixups (fst (extractCodeMetadata (Text req))) (MaxWords req) reply'"
      by blast
    then have "out = limitWords (postProcessCodeReply fixups reply' (fst (extractCodeMetadata (Text req)))) maxWords"
      using 4 a(2) by simp
    then show "int (word_count out) \<le> maxWords" using 1 by simp
  qed
  have 6: "Method r = ''POST'' \<and> Body r = Some req \<and> MaxWords req = maxWords \<longrightarrow>
            (case generation brain extractCodeMetadata rnd req b of
               (Inl err, b2) \<Rightarrow>
                 Predict brain extractCodeMetadata fixups rnd r b =
                   (HttpError ''Failed to generate reply'' 500, b2)
             | (Inr generated, b2) \<Rightarrow>
                 Predict brain extractCodeMetadata fixups rnd r b =
                   (ResponsePayload
                      (limitWords (postProcessCodeReply fixups generated
                                     (fst (extractCodeMetadata (Text req)))) maxWords), b2))"
  proof (intro impI, elim conjE)
    assume a: "Method r = ''POST''" "Body r = Some req" "MaxWords req = maxWords"
    note P = Predict_generation[OF a(1,2), of brain extractCodeMetadata fixups rnd b]
    show "case generation brain extractCodeMetadata rnd req b of
               (Inl err, b2) \<Rightarrow>
                 Predict brain extractCodeMetadata fixups rnd r b =
                   (HttpError ''Failed to generate reply'' 500, b2)
             | (Inr generated, b2) \<Rightarrow>
                 Predict brain extractCodeMetadata fixups rnd r b =
                   (ResponsePayload
                      (limitWords (postProcessCodeReply fixups generated
                                     (fst (extractCodeMetadata (Text req)))) maxWords), b2)"
    proof (cases "generation brain extractCodeMetadata rnd req b")
      case (Pair res b2)
      show ?thesis
      proof (cases res)
        case (Inl err)
        show ?thesis unfolding P Pair Inl by (simp only: prod.case sum.case)
      next
        case (Inr generated)
        show ?thesis unfolding P Pair Inr by (simp only: prod.case sum.case a(3) 4)
      qed
    qed
  qed
  show ?thesis by (intro conjI) (rule 1 2 3 4 5 6)+
qed

theorem limitWords_bound_witness:
  "(0::int) < 2 \<and> (0::int) < 1 \<and>
   limitWords (go ''the quick brown fox'') 2 = go ''the quick'' \<and>
   word_count (limitWords (go ''the quick brown fox'') 2) = 2 \<and>
   limitWords (go ''the quick'') 2 = go ''the quick'' \<and>
   Method (post (go ''hello'') 2 0) = ''POST'' \<and>
   Predict (scripted_brain [go ''the quick brown fox'']) plain_metadata no_fixups 0
       (post (go ''hello'') 2 0) 0 = (ResponsePayload (go ''the quick''), 1) \<and>
   Predict (scripted_brain [go ''the quick'']) plain_metadata no_fixups 0
       (post (go ''hello'') 2 0) 0 = (ResponsePayload (go ''the quick''), 1) \<and>
   Predict (scripted_brain [go ''a b c'', go ''d e'', go ''f g'', go ''h i j'', go ''k l m''])
       plain_metadata no_fixups 0 (post (go ''hello'') 1 0.95) 0 = (ResponsePayload (go ''d''), 5)"
proof -
  have h: "(0::int) < 2" and h': "(0::int) < 1" by simp_all
  note T = limitWords_bound[OF h]
  have f4: "Fields (go ''the quick brown fox'') = [go ''the'', go ''quick'', go ''brown'', go ''fox'']"
    by (simp add: Fields_def go_def IsSpace_def)
  have f2: "Fields (go ''the quick'') = [go ''the'', go ''quick'']"
    by (simp add: Fields_def go_def IsSpace_def)
  have "(2::int) < int (word_count (go ''the quick brown fox''))"
    by (simp add: word_count_def f4)
  with T[where s = "go ''the quick brown fox''", THEN conjunct2, THEN conjunct1]
  have a: "limitWords (go ''the quick brown fox'') 2 =
             Join (take (nat 2) (Fields (go ''the quick brown fox''))) (go '' '')"
    and b: "Fields (limitWords (go ''the quick brown fox'') 2) =
             take (nat 2) (Fields (go ''the quick brown fox''))"
    by blast+
  have a': "limitWords (go ''the quick brown fox'') 2 = go ''the quick''"
    unfolding a f4 by (simp add: go_def)
  have b': "word_count (limitWords (go ''the quick brown fox'') 2) = 2"
    unfolding word_count_def b f4 by simp
  have "int (word_count (go ''the quick'')) \<le> 2" by (simp add: word_count_def f2)
  with T[where s = "go ''the quick''", THEN conjunct2, THEN conjunct2, THEN conjunct1]
  have c: "limitWords (go ''the quick'') 2 = go ''the quick''"
    by blast
  let ?req = "\<lparr>Text = go ''hello'', MaxWords = 2, Precision = 0, Context = [], UseCache = False\<rparr>"
  have m: "Method (post (go ''hello'') 2 0) = ''POST''"
    and bd: "Body (post (go ''hello'') 2 0) = Some ?req"
    and mw: "MaxWords ?req = 2"
    by (simp_all add: post_def)
  have ft: "fst (plain_metadata (Text ?req)) = go ''text''" by (simp add: plain_metadata_def)
  have pp: "postProcessCodeReply no_fixups x (go ''text'') = x" for x
    by (simp add: postProcessCodeReply_def)
  have g1: "generation (scripted_brain [go ''the quick brown fox'']) plain_metadata 0 ?req 0 =
              (Inr (go ''the quick brown fox''), 1)"
    by (simp add: generation_def effective_precision_def scripted_brain_def plain_metadata_def)
  have g2: "generation (scripted_brain [go ''the quick'']) plain_metadata 0 ?req 0 =
              (Inr (go ''the quick''), 1)"
    by (simp add: generation_def effective_precision_def scripted_brain_def plain_metadata_def)
  have p1: "Predict (scripted_brain [go ''the quick brown fox'']) plain_metadata no_fixups 0
       (post (go ''hello'') 2 0) 0 = (ResponsePayload (go ''the quick''), 1)"
    using T[where r = "post (go ''hello'') 2 0" and req = ?req
          and brain = "scripted_brain [go ''the quick brown fox'']"
          and extractCodeMetadata = plain_metadata and fixups = no_fixups and rnd = 0 and b = 0,
          THEN conjunct2, THEN conjunct2, THEN conjunct2, THEN conjunct2, THEN conjunct2,
          rule_format, OF conjI[OF m conjI[OF bd mw]]]
    by (simp only: g1 prod.case sum.case ft pp a')
  have p2: "Predict (scripted_brain [go ''the quick'']) plain_metadata no_fixups 0
       (post (go ''hello'') 2 0) 0 = (ResponsePayload (go ''the quick''), 1)"
    using T[where r = "post (go ''hello'') 2 0" and req = ?req
          and brain = "scripted_brain [go ''the quick'']"
          and extractCodeMetadata = plain_metadata and fixups = no_fixups and rnd = 0 and b = 0,
          THEN conjunct2, THEN conjunct2, THEN conjunct2, THEN conjunct2, THEN conjunct2,
          rule_format, OF conjI[OF m conjI[OF bd mw]]]
    by (simp only: g2 prod.case sum.case ft pp c)
  let ?req5 = "\<lparr>Text = go ''hello'', MaxWords = 1, Precision = 0.95, Context = [], UseCache = False\<rparr>"
  let ?cs = "[go ''a b c'', go ''d e'', go ''f g'', go ''h i j'', go ''k l m'']"
  have m5: "Method (post (go ''hello'') 1 0.95) = ''POST''"
    and bd5: "Body (post (go ''hello'') 1 0.95) = Some ?req5"
    and mw5: "MaxWords ?req5 = 1"
    by (simp_all add: post_def)
  have ft5: "fst (plain_metadata (Text ?req5)) = go ''text''" by (simp add: plain_metadata_def)
  have s5: "successive_replies (scripted_brain ?cs) (go ''hello'') 5 0 = (Inr ?cs, 5)"
    by (simp add: eval_nat_numeral scripted_brain_def)
  have sel: "selectReplyByPrecision ?cs 0.95 0 = go ''d e''"
    by (simp add: selectReplyByPrecision_def shortest_loop.simps Fields_def go_def IsSpace_def)
  have g5: "generation (scripted_brain ?cs) plain_metadata 0 ?req5 0 = (Inr (go ''d e''), 5)"
  proof -
    have ep: "effective_precision (Precision ?req5) = 0.95"
      by (simp add: effective_precision_def)
    have "generation (scripted_brain ?cs) plain_metadata 0 ?req5 0 =
       (case successive_replies (scripted_brain ?cs) (go ''hello'') 5 0 of
          (Inl err, b') \<Rightarrow> (Inl err, b')
        | (Inr candidates, b') \<Rightarrow> (Inr (selectReplyByPrecision candidates 0.95 0), b'))"
      unfolding generation_def Let_def ep
      by (simp add: plain_metadata_def scripted_brain_def)
    then show ?thesis by (simp only: s5 prod.case sum.case sel)
  qed
  have l5: "limitWords (go ''d e'') 1 = go ''d''"
    by (simp add: limitWords_def Fields_def go_def IsSpace_def)
  have p5: "Predict (scripted_brain ?cs) plain_metadata no_fixups 0
       (post (go ''hello'') 1 0.95) 0 = (ResponsePayload (go ''d''), 5)"
    using limitWords_bound[OF h', where r = "post (go ''hello'') 1 0.95" and req = ?req5
          and brain = "scripted_brain ?cs"
          and extractCodeMetadata = plain_metadata and fixups = no_fixups and rnd = 0 and b = 0,
          THEN conjunct2, THEN conjunct2, THEN conjunct2, THEN conjunct2, THEN conjunct2,
          rule_format, OF conjI[OF m5 conjI[OF bd5 mw5]]]
    by (simp only: g5 prod.case sum.case ft5 pp l5)
  show ?thesis using h h' a' b' c m p1 p2 p5 by (intro conjI)
qed

section \<open>The graph store: tokens\<close>

lemma isWord_loop_iff:
  "isWord_loop t = (if \<exists>c\<in>set t. isAlphanumeric c \<or> c = of_char CHR ''_'' then 1 else 0)"
  by (induction t) (auto simp: isAlphanumeric_def)

lemma next_fault_tables:
  "tokens (snd (next_fault c)) = tokens c"
  "nodes (snd (next_fault c)) = nodes c"
  "edges (snd (next_fault c)) = edges c"
  by (simp_all add: next_fault_def split: list.splits)

lemma next_fault_faults:
  "faults (snd (next_fault c)) = tl (faults c)"
  "fst (next_fault c) = (case faults c of [] \<Rightarrow> False | f # _ \<Rightarrow> f)"
  by (simp_all add: next_fault_def split: list.splits)

text \<open>
  C9. For a text that is not in the token table, \<^verbatim>\<open>GetTokenByText(text, false)\<close> returns
  the id 0 with no error, and creates nothing; it returns an error exactly when the
  \<^verbatim>\<open>SELECT\<close> itself fails.
\<close>

theorem GetTokenByText_not_found:
  assumes "t \<notin> token_text ` set (tokens (Conn g))"
  shows "GetTokenByText g t False =
           (if fst (next_fault (Conn g)) then Inl ErrDatabase else Inr 0,
            g\<lparr>Conn := snd (next_fault (Conn g))\<rparr>) \<and>
         tokens (Conn (snd (GetTokenByText g t False))) = tokens (Conn g)"
proof -
  obtain failed c1 where n: "next_fault (Conn g) = (failed, c1)" by (cases "next_fault (Conn g)")
  have tk: "tokens c1 = tokens (Conn g)" using next_fault_tables(1)[of "Conn g"] n by simp
  have "filter (\<lambda>r. token_text r = t) (tokens c1) = []"
    using assms unfolding tk by (auto simp: filter_empty_conv)
  then have "GetTokenByText g t False =
           (if failed then Inl ErrDatabase else Inr 0, g\<lparr>Conn := c1\<rparr>)"
    by (simp add: GetTokenByText_def n)
  then show ?thesis using n tk by simp
qed

theorem GetTokenByText_not_found_witness:
  "go ''b'' \<notin> token_text ` set (tokens (Conn demo_store)) \<and>
   GetTokenByText demo_store (go ''b'') False = (Inr 0, demo_store) \<and>
   fst (GetTokenByText (demo_store\<lparr>Conn := (Conn demo_store)\<lparr>faults := [True]\<rparr>\<rparr>) (go ''b'') False)
     = Inl ErrDatabase"
proof -
  have h: "go ''b'' \<notin> token_text ` set (tokens (Conn demo_store))"
    by (simp add: demo_store_def go_def)
  have h': "go ''b'' \<notin> token_text ` set (tokens (Conn (demo_store\<lparr>Conn := (Conn demo_store)\<lparr>faults := [True]\<rparr>\<rparr>)))"
    by (simp add: demo_store_def go_def)
  have "GetTokenByText demo_store (go ''b'') False = (Inr 0, demo_store)"
    using GetTokenByText_not_found[OF h, THEN conjunct1]
    by (simp add: next_fault_def demo_store_def)
  moreover have "fst (GetTokenByText (demo_store\<lparr>Conn := (Conn demo_store)\<lparr>faults := [True]\<rparr>\<rparr>) (go ''b'') False)
     = Inl ErrDatabase"
    using GetTokenByText_not_found[OF h', THEN conjunct1]
    by (simp add: next_fault_def)
  ultimately show ?thesis using h by blast
qed

text \<open>
  C7. \<^verbatim>\<open>GetTokenByText(text, true)\<close> on a text that is not in the token table either
  fails on one of its two statements and stores nothing, or appends one row: its id is the id
  returned, its text the text given, and its \<^verbatim>\<open>is_word\<close> flag is 1 if and only if the
  text contains a letter \<^verbatim>\<open>a-z A-Z\<close>, a digit or an underscore (0 otherwise).
\<close>

theorem GetTokenByText_is_word:
  assumes "t \<notin> token_text ` set (tokens (Conn g))"
  shows "case GetTokenByText g t True of
           (Inl err, g') \<Rightarrow>
             (\<exists>f\<in>set (take 2 (faults (Conn g))). f) \<and> tokens (Conn g') = tokens (Conn g)
         | (Inr i, g') \<Rightarrow>
             (\<exists>row. tokens (Conn g') = tokens (Conn g) @ [row] \<and>
                    token_id row = i \<and> token_text row = t \<and>
                    (is_word row = 1 \<or> is_word row = 0) \<and>
                    (is_word row = 1) = (\<exists>c\<in>set t. isAlphanumeric c \<or> c = of_char CHR ''_''))"
proof -
  obtain failed c1 where n: "next_fault (Conn g) = (failed, c1)" by (cases "next_fault (Conn g)")
  obtain failed2 c2 where n2: "next_fault c1 = (failed2, c2)" by (cases "next_fault c1")
  have tk: "tokens c1 = tokens (Conn g)" "tokens c2 = tokens (Conn g)"
    using next_fault_tables(1)[of "Conn g"] next_fault_tables(1)[of c1] n n2 by simp_all
  have fl: "faults c1 = tl (faults (Conn g))"
    using next_fault_faults(1)[of "Conn g"] n by simp
  have f1: "failed \<Longrightarrow> \<exists>f\<in>set (take 2 (faults (Conn g))). f"
    using next_fault_faults(2)[of "Conn g"] n by (cases "faults (Conn g)") auto
  have f2: "failed2 \<Longrightarrow> \<exists>f\<in>set (take 2 (faults (Conn g))). f"
    using next_fault_faults(2)[of c1] n2 fl
    by (cases "faults (Conn g)"; cases "tl (faults (Conn g))") auto
  have e: "filter (\<lambda>r. token_text r = t) (tokens c1) = []"
    using assms unfolding tk by (auto simp: filter_empty_conv)
  let ?row = "\<lparr>token_id = next_rowid (map token_id (tokens c2)), token_text = t,
               is_word = isWord_loop t\<rparr>"
  have G: "GetTokenByText g t True =
     (if failed then (Inl ErrDatabase, g\<lparr>Conn := c1\<rparr>)
      else if failed2 then (Inl ErrDatabase, g\<lparr>Conn := c2\<rparr>)
      else (Inr (next_rowid (map token_id (tokens c2))),
            g\<lparr>Conn := c2\<lparr>tokens := tokens c2 @ [?row]\<rparr>\<rparr>))"
    by (simp add: GetTokenByText_def n n2 e Let_def)
  show ?thesis
  proof (cases failed)
    case True
    then show ?thesis using G f1 tk by simp
  next
    case False
    note nf = False
    show ?thesis
    proof (cases failed2)
      case True
      then show ?thesis using G nf f2 tk by simp
    next
      case False
      have "is_word ?row = 1 \<or> is_word ?row = 0"
        by (simp add: isWord_loop_iff)
      moreover have "(is_word ?row = 1) = (\<exists>c\<in>set t. isAlphanumeric c \<or> c = of_char CHR ''_'')"
        by (simp add: isWord_loop_iff)
      ultimately show ?thesis using G nf False tk by simp
    qed
  qed
qed

theorem GetTokenByText_is_word_witness:
  "go ''b_'' \<notin> token_text ` set (tokens (Conn demo_store)) \<and>
   go ''?!'' \<notin> token_text ` set (tokens (Conn demo_store)) \<and>
   tokens (Conn (snd (GetTokenByText demo_store (go ''b_'') True))) =
     [\<lparr>token_id = 1, token_text = go ''a'', is_word = 1\<rparr>,
      \<lparr>token_id = 2, token_text = go ''b_'', is_word = 1\<rparr>] \<and>
   tokens (Conn (snd (GetTokenByText demo_store (go ''?!'') True))) =
     [\<lparr>token_id = 1, token_text = go ''a'', is_word = 1\<rparr>,
      \<lparr>token_id = 2, token_text = go ''?!'', is_word = 0\<rparr>]"
proof -
  have h1: "go ''b_'' \<notin> token_text ` set (tokens (Conn demo_store))"
    and h2: "go ''?!'' \<notin> token_text ` set (tokens (Conn demo_store))"
    by (simp_all add: demo_store_def go_def)
  have r1: "GetTokenByText demo_store (go ''b_'') True =
     (Inr 2, demo_store\<lparr>Conn := (Conn demo_store)\<lparr>tokens :=
        [\<lparr>token_id = 1, token_text = go ''a'', is_word = 1\<rparr>,
         \<lparr>token_id = 2, token_text = go ''b_'', is_word = 1\<rparr>]\<rparr>\<rparr>)"
    by (simp add: GetTokenByText_def demo_store_def next_fault_def next_rowid_def go_def)
  have r2: "GetTokenByText demo_store (go ''?!'') True =
     (Inr 2, demo_store\<lparr>Conn := (Conn demo_store)\<lparr>tokens :=
        [\<lparr>token_id = 1, token_text = go ''a'', is_word = 1\<rparr>,
         \<lparr>token_id = 2, token_text = go ''?!'', is_word = 0\<rparr>]\<rparr>\<rparr>)"
    by (simp add: GetTokenByText_def demo_store_def next_fault_def next_rowid_def go_def)
  show ?thesis
    using GetTokenByText_is_word[OF h1] GetTokenByText_is_word[OF h2] h1 h2
    by (simp add: r1 r2)
qed

section \<open>The graph store: edges\<close>

lemma next_fault_ok:
  "list_all (\<lambda>f. \<not> f) (faults c) \<Longrightarrow>
   fst (next_fault c) = False \<and> list_all (\<lambda>f. \<not> f) (faults (snd (next_fault c)))"
  by (cases "faults c") (simp_all add: next_fault_def)

lemma AddEdge_cases:
  assumes n: "next_fault (Conn g) = (failed, c1)"
    and c2: "c2 = c1\<lparr>edges := map (\<lambda>e. if edge_hit p q h e then e\<lparr>edge_count := edge_count e + 1\<rparr> else e)
                                 (edges c1)\<rparr>"
    and n2: "next_fault c2 = (failed2, c3)"
  shows "AddEdge g p q h =
    (if failed then (Some ErrDatabase, g\<lparr>Conn := c1\<rparr>)
     else if filter (edge_hit p q h) (edges c1) = [] then
       (if failed2 then (Some ErrDatabase, g\<lparr>Conn := c3\<rparr>)
        else (None, g\<lparr>Conn := c3\<lparr>edges := edges c3 @
                [\<lparr>edge_id = next_rowid (map edge_id (edges c3)),
                  prev_node = p, next_node = q, has_space = (if h then 1 else 0),
                  edge_count = 1\<rparr>]\<rparr>\<rparr>))
     else (None, g\<lparr>Conn := c2\<rparr>))"
proof -
  have hit: "(\<lambda>e. prev_node e = p \<and> next_node e = q \<and> has_space e = (if h then 1 else 0))
             = edge_hit p q h"
    by (simp add: edge_hit_def fun_eq_iff)
  have c2': "c2 = c1\<lparr>edges := map (\<lambda>e. if prev_node e = p \<and> next_node e = q \<and>
                                             has_space e = (if h then 1 else 0)
                                          then e\<lparr>edge_count := edge_count e + 1\<rparr> else e)
                                    (edges c1)\<rparr>"
    unfolding c2 edge_hit_def ..
  show ?thesis
    by (simp only: AddEdge_def Let_def hit n prod.case c2'[symmetric] n2 length_0_conv)
qed

lemma filter_hit_bump:
  "filter (edge_hit p q h) (map (\<lambda>e. if edge_hit p q h e then e\<lparr>edge_count := edge_count e + 1\<rparr> else e) es)
     = map (\<lambda>e. e\<lparr>edge_count := edge_count e + 1\<rparr>) (filter (edge_hit p q h) es)"
  by (induction es) (simp_all add: edge_hit_def)

lemma filter_miss_bump:
  "filter (\<lambda>e. \<not> edge_hit p q h e)
      (map (\<lambda>e. if edge_hit p q h e then e\<lparr>edge_count := edge_count e + 1\<rparr> else e) es)
     = filter (\<lambda>e. \<not> edge_hit p q h e) es"
  by (induction es) (simp_all add: edge_hit_def)

lemma AddEdge_effect:
  assumes "AddEdge g p q h = (None, g')"
  shows "filter (edge_hit p q h) (edges (Conn g')) =
           (if filter (edge_hit p q h) (edges (Conn g)) = []
            then [\<lparr>edge_id = next_rowid (map edge_id (edges (Conn g))), prev_node = p,
                   next_node = q, has_space = (if h then 1 else 0), edge_count = 1\<rparr>]
            else map (\<lambda>e. e\<lparr>edge_count := edge_count e + 1\<rparr>)
                   (filter (edge_hit p q h) (edges (Conn g))))"
    and "filter (\<lambda>e. \<not> edge_hit p q h e) (edges (Conn g')) =
           filter (\<lambda>e. \<not> edge_hit p q h e) (edges (Conn g))"
proof -
  let ?bump = "\<lambda>e. if edge_hit p q h e then e\<lparr>edge_count := edge_count e + 1\<rparr> else e"
  obtain failed c1 where n: "next_fault (Conn g) = (failed, c1)" by (cases "next_fault (Conn g)")
  define c2 where "c2 = c1\<lparr>edges := map ?bump (edges c1)\<rparr>"
  obtain failed2 c3 where n2: "next_fault c2 = (failed2, c3)" by (cases "next_fault c2")
  note A = AddEdge_cases[OF n c2_def n2]
  have e1: "edges c1 = edges (Conn g)" using next_fault_tables(3)[of "Conn g"] n by simp
  have e3: "edges c3 = map ?bump (edges (Conn g))"
    using next_fault_tables(3)[of c2] n2 e1 by (simp add: c2_def)
  have new: "edge_hit p q h \<lparr>edge_id = i, prev_node = p, next_node = q,
                has_space = (if h then 1 else 0), edge_count = 1\<rparr>" for i
    by (simp add: edge_hit_def)
  show "filter (edge_hit p q h) (edges (Conn g')) =
           (if filter (edge_hit p q h) (edges (Conn g)) = []
            then [\<lparr>edge_id = next_rowid (map edge_id (edges (Conn g))), prev_node = p,
                   next_node = q, has_space = (if h then 1 else 0), edge_count = 1\<rparr>]
            else map (\<lambda>e. e\<lparr>edge_count := edge_count e + 1\<rparr>)
                   (filter (edge_hit p q h) (edges (Conn g))))"
  proof (cases "filter (edge_hit p q h) (edges (Conn g)) = []")
    case True
    then have same: "map ?bump (edges (Conn g)) = edges (Conn g)"
      by (auto simp: filter_empty_conv intro: map_idI)
    have "g' = g\<lparr>Conn := c3\<lparr>edges := edges c3 @
                [\<lparr>edge_id = next_rowid (map edge_id (edges c3)),
                  prev_node = p, next_node = q, has_space = (if h then 1 else 0),
                  edge_count = 1\<rparr>]\<rparr>\<rparr>"
      using assms A True e1 by (simp split: if_splits)
    then show ?thesis using True e3 same new by simp
  next
    case False
    then have "g' = g\<lparr>Conn := c2\<rparr>" using assms A e1 by (simp split: if_splits)
    then show ?thesis using False e1 by (simp add: c2_def filter_hit_bump)
  qed
  show "filter (\<lambda>e. \<not> edge_hit p q h e) (edges (Conn g')) =
           filter (\<lambda>e. \<not> edge_hit p q h e) (edges (Conn g))"
  proof (cases "filter (edge_hit p q h) (edges (Conn g)) = []")
    case True
    have "g' = g\<lparr>Conn := c3\<lparr>edges := edges c3 @
                [\<lparr>edge_id = next_rowid (map edge_id (edges c3)),
                  prev_node = p, next_node = q, has_space = (if h then 1 else 0),
                  edge_count = 1\<rparr>]\<rparr>\<rparr>"
      using assms A True e1 by (simp split: if_splits)
    then show ?thesis using e3 new by (simp add: filter_miss_bump)
  next
    case False
    then have "g' = g\<lparr>Conn := c2\<rparr>" using assms A e1 by (simp split: if_splits)
    then show ?thesis using e1 by (simp add: c2_def filter_miss_bump)
  qed
qed

lemma AddEdge_ok:
  assumes "no_faults g"
  shows "fst (AddEdge g p q h) = None \<and> no_faults (snd (AddEdge g p q h))"
proof -
  let ?bump = "\<lambda>e. if edge_hit p q h e then e\<lparr>edge_count := edge_count e + 1\<rparr> else e"
  obtain failed c1 where n: "next_fault (Conn g) = (failed, c1)" by (cases "next_fault (Conn g)")
  define c2 where "c2 = c1\<lparr>edges := map ?bump (edges c1)\<rparr>"
  obtain failed2 c3 where n2: "next_fault c2 = (failed2, c3)" by (cases "next_fault c2")
  note A = AddEdge_cases[OF n c2_def n2]
  have 1: "\<not> failed" "list_all (\<lambda>f. \<not> f) (faults c1)"
    using next_fault_ok[of "Conn g"] assms n by (simp_all add: no_faults_def)
  then have "list_all (\<lambda>f. \<not> f) (faults c2)" by (simp add: c2_def)
  then have 2: "\<not> failed2" "list_all (\<lambda>f. \<not> f) (faults c3)"
    using next_fault_ok[of c2] n2 by simp_all
  show ?thesis using A 1 2 \<open>list_all (\<lambda>f. \<not> f) (faults c2)\<close> by (simp add: no_faults_def)
qed

lemma AddEdge_times_count:
  "filter (edge_hit p q h) (edges (Conn g)) = [e] \<Longrightarrow>
   AddEdge_times n g p q h = (None, g') \<Longrightarrow>
   (\<exists>e'. filter (edge_hit p q h) (edges (Conn g')) = [e'] \<and>
         edge_count e' = edge_count e + int n) \<and>
   filter (\<lambda>e. \<not> edge_hit p q h e) (edges (Conn g')) =
     filter (\<lambda>e. \<not> edge_hit p q h e) (edges (Conn g))"
proof (induction n arbitrary: g e)
  case 0
  then show ?case by simp
next
  case (Suc n)
  obtain r g1 where a: "AddEdge g p q h = (r, g1)" by (cases "AddEdge g p q h")
  with Suc.prems(2) have r: "r = None" and t: "AddEdge_times n g1 p q h = (None, g')"
    by (auto split: option.splits)
  note E = AddEdge_effect[OF a[unfolded r]]
  have f1: "filter (edge_hit p q h) (edges (Conn g1)) = [e\<lparr>edge_count := edge_count e + 1\<rparr>]"
    using E(1) Suc.prems(1) by simp
  from Suc.IH[OF f1 t] E(2) show ?case by auto
qed

lemma AddEdge_times_ok:
  "no_faults g \<Longrightarrow> fst (AddEdge_times n g p q h) = None"
proof (induction n arbitrary: g)
  case 0
  then show ?case by simp
next
  case (Suc n)
  obtain r g1 where a: "AddEdge g p q h = (r, g1)" by (cases "AddEdge g p q h")
  then have "r = None" "no_faults g1" using AddEdge_ok[OF Suc.prems, of p q h] by simp_all
  then show ?case using a Suc.IH[of g1] by simp
qed

text \<open>
  C5. From a store with no edge for the triple \<open>(prevNode, nextNode, hasSpace)\<close>, \<open>N \<ge> 1\<close>
  calls of \<^verbatim>\<open>AddEdge\<close> with that triple succeed on a connection without failures, and
  whenever all of them succeed the store holds exactly one edge with the triple, with count
  \<open>N\<close>; the other edges are as before.
\<close>

theorem AddEdge_accumulates:
  assumes "filter (edge_hit prevNode nextNode hasSpace) (edges (Conn g)) = []" and "1 \<le> N"
  shows "(no_faults g \<longrightarrow> fst (AddEdge_times N g prevNode nextNode hasSpace) = None) \<and>
         (\<forall>g'. AddEdge_times N g prevNode nextNode hasSpace = (None, g') \<longrightarrow>
            (\<exists>e. filter (edge_hit prevNode nextNode hasSpace) (edges (Conn g')) = [e] \<and>
                 edge_count e = int N) \<and>
            filter (\<lambda>e. \<not> edge_hit prevNode nextNode hasSpace e) (edges (Conn g')) =
              filter (\<lambda>e. \<not> edge_hit prevNode nextNode hasSpace e) (edges (Conn g)))"
proof (intro conjI allI impI)
  assume "no_faults g"
  then show "fst (AddEdge_times N g prevNode nextNode hasSpace) = None"
    by (rule AddEdge_times_ok)
next
  fix g'
  assume t: "AddEdge_times N g prevNode nextNode hasSpace = (None, g')"
  obtain n where N: "N = Suc n" using assms(2) by (cases N) simp_all
  obtain r g1 where a: "AddEdge g prevNode nextNode hasSpace = (r, g1)"
    by (cases "AddEdge g prevNode nextNode hasSpace")
  with t N have r: "r = None" and t1: "AddEdge_times n g1 prevNode nextNode hasSpace = (None, g')"
    by (auto split: option.splits)
  note E = AddEdge_effect[OF a[unfolded r]]
  let ?new = "\<lparr>edge_id = next_rowid (map edge_id (edges (Conn g))), prev_node = prevNode,
               next_node = nextNode, has_space = (if hasSpace then 1 else 0), edge_count = 1\<rparr>"
  have f1: "filter (edge_hit prevNode nextNode hasSpace) (edges (Conn g1)) = [?new]"
    using E(1) assms(1) by simp
  from AddEdge_times_count[OF f1 t1] E(2) N
  show "\<exists>e. filter (edge_hit prevNode nextNode hasSpace) (edges (Conn g')) = [e] \<and>
                 edge_count e = int N"
    and "filter (\<lambda>e. \<not> edge_hit prevNode nextNode hasSpace e) (edges (Conn g')) =
              filter (\<lambda>e. \<not> edge_hit prevNode nextNode hasSpace e) (edges (Conn g))"
    by auto
qed

theorem AddEdge_accumulates_witness:
  "filter (edge_hit 1 2 True) (edges (Conn demo_edges)) = [] \<and> (1::nat) \<le> 3 \<and>
   AddEdge_times 3 demo_edges 1 2 True =
     (None, demo_edges\<lparr>Conn := (Conn demo_edges)\<lparr>edges :=
        [\<lparr>edge_id = 1, prev_node = 1, next_node = 2, has_space = 0, edge_count = 4\<rparr>,
         \<lparr>edge_id = 2, prev_node = 1, next_node = 2, has_space = 1, edge_count = 3\<rparr>]\<rparr>\<rparr>)"
proof -
  have h1: "filter (edge_hit 1 2 True) (edges (Conn demo_edges)) = []"
    by (simp add: demo_edges_def edge_hit_def)
  have h2: "(1::nat) \<le> 3" by simp
  have ev: "AddEdge_times 3 demo_edges 1 2 True =
     (None, demo_edges\<lparr>Conn := (Conn demo_edges)\<lparr>edges :=
        [\<lparr>edge_id = 1, prev_node = 1, next_node = 2, has_space = 0, edge_count = 4\<rparr>,
         \<lparr>edge_id = 2, prev_node = 1, next_node = 2, has_space = 1, edge_count = 3\<rparr>]\<rparr>\<rparr>)"
    by (simp add: eval_nat_numeral AddEdge_def demo_edges_def next_fault_def next_rowid_def)
  show ?thesis using AddEdge_accumulates[OF h1 h2] h1 ev by simp
qed

section \<open>The graph store: the random walk\<close>

lemma random_rows_subset: "set (fst (random_rows k rows rs)) \<subseteq> set rows"
proof (induction k rows rs rule: random_rows.induct)
  case (1 rows rs)
  then show ?case by simp
next
  case (2 k rows rs)
  show ?case
  proof (cases "rows = []")
    case True
    then show ?thesis by simp
  next
    case False
    obtain r rs1 where d: "draw rs = (r, rs1)" by (cases "draw rs")
    let ?i = "r mod length rows"
    let ?rest = "take ?i rows @ drop (Suc ?i) rows"
    obtain picked rs2 where pk: "random_rows k ?rest rs1 = (picked, rs2)"
      by (cases "random_rows k ?rest rs1")
    have i: "?i < length rows" using False by simp
    have "set picked \<subseteq> set ?rest"
      using 2[OF False d[symmetric] refl refl] pk by simp
    moreover have "set ?rest \<subseteq> set rows"
      by (auto dest: in_set_takeD in_set_dropD)
    moreover have "rows ! ?i \<in> set rows" using i by simp
    ultimately show ?thesis using False d pk by auto
  qed
qed

lemma collect_edges_filter:
  "collect_edges currentID rows = filter (\<lambda>(i, t). t \<noteq> currentID) rows"
  by (induction currentID rows rule: collect_edges.induct) simp_all

lemma walk_step_cases:
  fixes g direction currentID rs
  defines "g1 \<equiv> g\<lparr>Conn := snd (next_fault (Conn g))\<rparr>"
  obtains
    (fail) "fst (next_fault (Conn g))"
      "walk_step g direction currentID rs = (Inl ErrDatabase, g1, rs)"
  | (dead) rs1 where "\<not> fst (next_fault (Conn g))"
      "walk_step g direction currentID rs = (Inr None, g1, rs1)"
  | (pick) e rs1 where "\<not> fst (next_fault (Conn g))"
      "e \<in> set (edges (Conn g))" "walk_from direction e = currentID"
      "walk_to direction e \<noteq> currentID"
      "walk_step g direction currentID rs = (Inr (Some (edge_id e, walk_to direction e)), g1, rs1)"
proof -
  obtain failed c1 where n: "next_fault (Conn g) = (failed, c1)" by (cases "next_fault (Conn g)")
  have e1: "edges c1 = edges (Conn g)" using next_fault_tables(3)[of "Conn g"] n by simp
  have g1: "g1 = g\<lparr>Conn := c1\<rparr>" by (simp add: g1_def n)
  let ?cands = "filter (\<lambda>e. walk_from direction e = currentID) (edges c1)"
  obtain rows rs1 where rr: "random_rows 5 ?cands rs = (rows, rs1)"
    by (cases "random_rows 5 ?cands rs")
  let ?pairs = "map (\<lambda>e. (edge_id e, walk_to direction e)) rows"
  let ?edges' = "collect_edges currentID ?pairs"
  obtain r rs2 where d: "draw rs1 = (r, rs2)" by (cases "draw rs1")
  have W: "walk_step g direction currentID rs =
     (if failed then (Inl ErrDatabase, g1, rs)
      else if length ?edges' = 0 then (Inr None, g1, rs1)
      else if length ?edges' > 1 then (Inr (Some (?edges' ! (r mod length ?edges'))), g1, rs2)
      else (Inr (Some (?edges' ! 0)), g1, rs1))"
    by (simp add: walk_step_def n rr d g1 Let_def)
  have rows: "set rows \<subseteq> set ?cands" using random_rows_subset[of 5 ?cands rs] rr by simp
  have mem: "\<exists>e\<in>set (edges (Conn g)). walk_from direction e = currentID \<and>
               walk_to direction e \<noteq> currentID \<and> x = (edge_id e, walk_to direction e)"
    if "x \<in> set ?edges'" for x
  proof -
    from that obtain e where "e \<in> set rows" "x = (edge_id e, walk_to direction e)"
        "walk_to direction e \<noteq> currentID"
      by (auto simp: collect_edges_filter)
    moreover then have "e \<in> set (edges (Conn g))" "walk_from direction e = currentID"
      using rows e1 by auto
    ultimately show ?thesis by blast
  qed
  show thesis
  proof (cases failed)
    case True
    then show ?thesis using fail W n by simp
  next
    case False
    note nf = False
    show ?thesis
    proof (cases "length ?edges' = 0")
      case True
      then show ?thesis using dead[of rs1] W nf n by simp
    next
      case False
      note ne = False
      show ?thesis
      proof (cases "length ?edges' > 1")
        case True
        have "?edges' ! (r mod length ?edges') \<in> set ?edges'" using ne by simp
        from mem[OF this] obtain e where "e \<in> set (edges (Conn g))"
            "walk_from direction e = currentID" "walk_to direction e \<noteq> currentID"
            "?edges' ! (r mod length ?edges') = (edge_id e, walk_to direction e)" by blast
        then show ?thesis using pick[of e rs2] W nf ne True n by simp
      next
        case False
        have "?edges' ! 0 \<in> set ?edges'" using ne by simp
        from mem[OF this] obtain e where "e \<in> set (edges (Conn g))"
            "walk_from direction e = currentID" "walk_to direction e \<noteq> currentID"
            "?edges' ! 0 = (edge_id e, walk_to direction e)" by blast
        then show ?thesis using pick[of e rs1] W nf ne False n by simp
      qed
    qed
  qed
qed

lemma walk_step_dead_end:
  assumes "dead_end (Conn g) direction currentID" "\<not> fst (next_fault (Conn g))"
  shows "\<exists>rs1. walk_step g direction currentID rs =
           (Inr None, g\<lparr>Conn := snd (next_fault (Conn g))\<rparr>, rs1)"
proof (cases rule: walk_step_cases[of g direction currentID rs])
  case fail
  then show ?thesis using assms(2) by simp
next
  case (dead rs1)
  then show ?thesis by blast
next
  case (pick e rs1)
  then show ?thesis using assms(1) by (auto simp: dead_end_def)
qed

lemma walk_loop_stop:
  "\<not> i < maxLength \<Longrightarrow> walk_loop g endID direction i currentID edgeIDs rs = (Inr edgeIDs, g, rs)"
  by (subst walk_loop.simps) simp

lemma walk_loop_fail:
  "i < maxLength \<Longrightarrow> walk_step g direction currentID rs = (Inl err, g1, rs1) \<Longrightarrow>
   walk_loop g endID direction i currentID edgeIDs rs = (Inl err, g1, rs1)"
  by (subst walk_loop.simps) simp

lemma walk_loop_dead:
  "i < maxLength \<Longrightarrow> walk_step g direction currentID rs = (Inr None, g1, rs1) \<Longrightarrow>
   walk_loop g endID direction i currentID edgeIDs rs = (Inr edgeIDs, g1, rs1)"
  by (subst walk_loop.simps) simp

lemma walk_loop_pick:
  "i < maxLength \<Longrightarrow> walk_step g direction currentID rs = (Inr (Some (eid, targetID)), g1, rs1) \<Longrightarrow>
   walk_loop g endID direction i currentID edgeIDs rs =
     (if targetID = endID then (Inr (edgeIDs @ [eid]), g1, rs1)
      else walk_loop g1 endID direction (i + 1) targetID (edgeIDs @ [eid]) rs1)"
  by (subst walk_loop.simps) simp

lemma walk_loop_length:
  "fst (walk_loop g endID direction i currentID edgeIDs rs) = Inr p \<Longrightarrow>
   length p \<le> length edgeIDs + (maxLength - i)"
proof (induction "maxLength - i" arbitrary: i g currentID edgeIDs rs)
  case 0
  then have "\<not> i < maxLength" by simp
  then show ?case using 0 by (simp add: walk_loop_stop)
next
  case (Suc n)
  then have lt: "i < maxLength" by simp
  show ?case
  proof (cases rule: walk_step_cases[of g direction currentID rs])
    case fail
    then show ?thesis using Suc.prems walk_loop_fail[OF lt fail(2)] by simp
  next
    case (dead rs1)
    then show ?thesis using Suc.prems walk_loop_dead[OF lt dead(2)] by simp
  next
    case (pick e rs1)
    note L = walk_loop_pick[OF lt pick(5), of endID edgeIDs]
    show ?thesis
    proof (cases "walk_to direction e = endID")
      case True
      then show ?thesis using Suc.prems L lt by auto
    next
      case False
      have "n = maxLength - (i + 1)" using Suc(2) by simp
      from Suc(1)[OF this, of "g\<lparr>Conn := snd (next_fault (Conn g))\<rparr>" "walk_to direction e"
                     "edgeIDs @ [edge_id e]" rs1]
      show ?thesis using Suc.prems L False lt by simp
    qed
  qed
qed

lemma walk_loop_returns:
  "no_faults g \<Longrightarrow> \<exists>p. fst (walk_loop g endID direction i currentID edgeIDs rs) = Inr p"
proof (induction "maxLength - i" arbitrary: i g currentID edgeIDs rs)
  case 0
  then have "\<not> i < maxLength" by simp
  then show ?case by (simp add: walk_loop_stop)
next
  case (Suc n)
  then have lt: "i < maxLength" by simp
  have ok: "\<not> fst (next_fault (Conn g))" "no_faults (g\<lparr>Conn := snd (next_fault (Conn g))\<rparr>)"
    using next_fault_ok[of "Conn g"] Suc.prems by (simp_all add: no_faults_def)
  show ?case
  proof (cases rule: walk_step_cases[of g direction currentID rs])
    case fail
    then show ?thesis using ok by simp
  next
    case (dead rs1)
    then show ?thesis using walk_loop_dead[OF lt dead(2)] by simp
  next
    case (pick e rs1)
    note L = walk_loop_pick[OF lt pick(5), of endID edgeIDs]
    show ?thesis
    proof (cases "walk_to direction e = endID")
      case True
      then show ?thesis using L by simp
    next
      case False
      have "n = maxLength - (i + 1)" using Suc(2) by simp
      from Suc(1)[OF this ok(2), of "walk_to direction e" "edgeIDs @ [edge_id e]" rs1]
      show ?thesis using L False by simp
    qed
  qed
qed

lemma walk_loop_dead_end:
  assumes "i < maxLength" "dead_end (Conn g) direction currentID" "\<not> fst (next_fault (Conn g))"
  shows "fst (walk_loop g endID direction i currentID edgeIDs rs) = Inr edgeIDs"
proof -
  from walk_step_dead_end[OF assms(2,3), of rs] obtain rs1 where
    "walk_step g direction currentID rs = (Inr None, g\<lparr>Conn := snd (next_fault (Conn g))\<rparr>, rs1)"
    by blast
  from walk_loop_dead[OF assms(1) this] show ?thesis by simp
qed

lemma find_by_id:
  "distinct (map edge_id es) \<Longrightarrow> e \<in> set es \<Longrightarrow> find (\<lambda>x. edge_id x = edge_id e) es = Some e"
  by (induction es) (auto simp: image_iff)

lemma chain_edges: "edges c = edges c' \<Longrightarrow> chain c direction cur p = chain c' direction cur p"
  by (induction p arbitrary: cur) (simp_all split: option.splits)

lemma walk_loop_chain:
  "distinct (map edge_id (edges (Conn g))) \<Longrightarrow>
   fst (walk_loop g endID direction i currentID edgeIDs rs) = Inr p \<Longrightarrow>
   \<exists>p'. p = edgeIDs @ p' \<and> chain (Conn g) direction currentID p'"
proof (induction "maxLength - i" arbitrary: i g currentID edgeIDs rs)
  case 0
  then have "\<not> i < maxLength" by simp
  then show ?case using 0 by (simp add: walk_loop_stop)
next
  case (Suc n)
  then have lt: "i < maxLength" by simp
  let ?g1 = "g\<lparr>Conn := snd (next_fault (Conn g))\<rparr>"
  have e1: "edges (Conn ?g1) = edges (Conn g)" by (simp add: next_fault_tables)
  show ?case
  proof (cases rule: walk_step_cases[of g direction currentID rs])
    case fail
    then show ?thesis using Suc.prems walk_loop_fail[OF lt fail(2)] by simp
  next
    case (dead rs1)
    then show ?thesis using Suc.prems walk_loop_dead[OF lt dead(2)] by simp
  next
    case (pick e rs1)
    note L = walk_loop_pick[OF lt pick(5), of endID edgeIDs]
    have f: "find (\<lambda>x. edge_id x = edge_id e) (edges (Conn g)) = Some e"
      by (rule find_by_id[OF Suc.prems(1) pick(2)])
    show ?thesis
    proof (cases "walk_to direction e = endID")
      case True
      then have "p = edgeIDs @ [edge_id e]" using Suc.prems L by simp
      moreover have "chain (Conn g) direction currentID [edge_id e]"
        using f pick(3,4) by simp
      ultimately show ?thesis by blast
    next
      case False
      have "n = maxLength - (i + 1)" using Suc(2) by simp
      moreover have "distinct (map edge_id (edges (Conn ?g1)))" using Suc.prems(1) e1 by simp
      moreover have "fst (walk_loop ?g1 endID direction (i + 1) (walk_to direction e)
                            (edgeIDs @ [edge_id e]) rs1) = Inr p"
        using Suc.prems(2) L False by simp
      ultimately obtain p' where p': "p = (edgeIDs @ [edge_id e]) @ p'"
          "chain (Conn ?g1) direction (walk_to direction e) p'"
        using Suc(1) by blast
      have "chain (Conn g) direction (walk_to direction e) p'"
        using p'(2) chain_edges[OF e1] by simp
      then have "chain (Conn g) direction currentID (edge_id e # p')"
        using f pick(3,4) by simp
      then show ?thesis using p'(1) by auto
    qed
  qed
qed

text \<open>
  C6. \<^verbatim>\<open>SearchRandomWalk\<close> is a total function: the loop runs at most \<open>maxLength = 15\<close>
  times whatever the graph, cycles included. Every path it returns has at most 15 edge ids; on
  a connection without failures it returns a path; and at a dead end, in any round of the loop,
  it returns the path accumulated so far and no error.
\<close>

theorem SearchRandomWalk_bounded:
  "(\<forall>p. fst (SearchRandomWalk g rs startID endID direction) = Inr p \<longrightarrow> length p \<le> 15) \<and>
   (no_faults g \<longrightarrow>
      (\<exists>p. fst (SearchRandomWalk g rs startID endID direction) = Inr p \<and> length p \<le> 15)) \<and>
   (i < maxLength \<and> dead_end (Conn g) direction currentID \<and> \<not> fst (next_fault (Conn g)) \<longrightarrow>
      fst (walk_loop g endID direction i currentID edgeIDs rs) = Inr edgeIDs)"
proof -
  have a: "length p \<le> 15" if "fst (SearchRandomWalk g rs startID endID direction) = Inr p" for p
    using walk_loop_length[of g endID direction 0 startID "[]" rs p] that
    by (simp add: SearchRandomWalk_def maxLength_def)
  have b: "\<exists>p. fst (SearchRandomWalk g rs startID endID direction) = Inr p \<and> length p \<le> 15"
    if "no_faults g"
    using walk_loop_returns[OF that, of endID direction 0 startID "[]" rs] a
    by (auto simp: SearchRandomWalk_def)
  have c: "i < maxLength \<and> dead_end (Conn g) direction currentID \<and> \<not> fst (next_fault (Conn g)) \<longrightarrow>
      fst (walk_loop g endID direction i currentID edgeIDs rs) = Inr edgeIDs"
    using walk_loop_dead_end by blast
  show ?thesis using a b c by blast
qed

theorem SearchRandomWalk_bounded_witness:
  "no_faults demo_cycle \<and>
   fst (SearchRandomWalk demo_cycle [3, 1, 4, 1, 5, 9, 2, 6] 1 7 True) =
     Inr [1, 2, 1, 2, 1, 2, 1, 2, 1, 2, 1, 2, 1, 2, 1] \<and>
   length [1, 2, 1, 2, 1, 2, 1, 2, 1, 2, 1, 2, 1, 2, 1 :: int] \<le> 15 \<and>
   (0::nat) < maxLength \<and> dead_end (Conn demo_cycle) True 5 \<and>
   \<not> fst (next_fault (Conn demo_cycle)) \<and>
   fst (SearchRandomWalk demo_cycle [3, 1, 4] 5 7 True) = Inr []"
proof -
  have nf: "no_faults demo_cycle" by code_simp
  have w: "fst (SearchRandomWalk demo_cycle [3, 1, 4, 1, 5, 9, 2, 6] 1 7 True) =
     Inr [1, 2, 1, 2, 1, 2, 1, 2, 1, 2, 1, 2, 1, 2, 1]"
    by code_simp
  have d: "(0::nat) < maxLength" "dead_end (Conn demo_cycle) True 5"
      "\<not> fst (next_fault (Conn demo_cycle))"
    by code_simp+
  have l: "length [1, 2, 1, 2, 1, 2, 1, 2, 1, 2, 1, 2, 1, 2, 1 :: int] \<le> 15"
    using SearchRandomWalk_bounded[where g = demo_cycle and rs = "[3, 1, 4, 1, 5, 9, 2, 6]"
        and startID = 1 and endID = 7 and direction = True, THEN conjunct1] w
    by blast
  have e: "fst (walk_loop demo_cycle 7 True 0 5 [] [3, 1, 4]) = Inr []"
    using SearchRandomWalk_bounded[where g = demo_cycle and rs = "[3, 1, 4]" and endID = 7
        and direction = True and i = 0 and currentID = 5 and edgeIDs = "[]",
        THEN conjunct2, THEN conjunct2] d
    by blast
  show ?thesis using nf w l d e by (simp add: SearchRandomWalk_def)
qed

text \<open>
  C10. With edge ids that identify the rows (the primary key), every path that
  \<^verbatim>\<open>SearchRandomWalk\<close> returns is a chain from \<open>startID\<close>: forward, the first edge has
  \<^verbatim>\<open>prev_node = startID\<close> and each next edge has as \<^verbatim>\<open>prev_node\<close> the
  \<^verbatim>\<open>next_node\<close> of the edge before; backward the same with the two columns exchanged; and
  the two ends of every edge of the path differ.
\<close>

theorem SearchRandomWalk_chain:
  assumes "distinct (map edge_id (edges (Conn g)))"
    and "fst (SearchRandomWalk g rs startID endID direction) = Inr p"
  shows "chain (Conn g) direction startID p"
  using walk_loop_chain[OF assms(1), of endID direction 0 startID "[]" rs p] assms(2)
  by (simp add: SearchRandomWalk_def)

theorem SearchRandomWalk_chain_witness:
  "distinct (map edge_id (edges (Conn demo_cycle))) \<and>
   fst (SearchRandomWalk demo_cycle [3, 1, 4, 1, 5, 9, 2, 6] 1 1 False) = Inr [2, 1] \<and>
   chain (Conn demo_cycle) False 1 [2, 1] \<and>
   fst (SearchRandomWalk demo_cycle [3, 1, 4, 1, 5, 9, 2, 6] 1 7 True) =
     Inr [1, 2, 1, 2, 1, 2, 1, 2, 1, 2, 1, 2, 1, 2, 1] \<and>
   chain (Conn demo_cycle) True 1 [1, 2, 1, 2, 1, 2, 1, 2, 1, 2, 1, 2, 1, 2, 1]"
proof -
  have h1: "distinct (map edge_id (edges (Conn demo_cycle)))" by code_simp
  have h2: "fst (SearchRandomWalk demo_cycle [3, 1, 4, 1, 5, 9, 2, 6] 1 1 False) = Inr [2, 1]"
    by code_simp
  have h3: "fst (SearchRandomWalk demo_cycle [3, 1, 4, 1, 5, 9, 2, 6] 1 7 True) =
     Inr [1, 2, 1, 2, 1, 2, 1, 2, 1, 2, 1, 2, 1, 2, 1]"
    by code_simp
  show ?thesis
    using SearchRandomWalk_chain[OF h1 h2] SearchRandomWalk_chain[OF h1 h3] h1 h2 h3 by blast
qed

section \<open>The graph store: edges for a context\<close>

text \<open>
  What holds of \<^verbatim>\<open>FindEdgesForContext\<close>: a context whose length differs from the order
  leaves the tables as they are; a context of fewer than two ids is refused; and a list of edge
  ids that \<^verbatim>\<open>findEdgesFromNode\<close> returns has at most 20 entries, all of them edges that
  leave the node, in descending order of their counts.
\<close>

lemma findEdgesFromNode_frame: "tables (snd (findEdgesFromNode g nodeID)) = tables g"
proof -
  obtain failed c1 where n: "next_fault (Conn g) = (failed, c1)" by (cases "next_fault (Conn g)")
  have "tokens c1 = tokens (Conn g)" "nodes c1 = nodes (Conn g)" "edges c1 = edges (Conn g)"
    using next_fault_tables[of "Conn g"] n by simp_all
  then show ?thesis by (simp add: findEdgesFromNode_def tables_def n)
qed

lemma findNodeContainingContext_partial_frame:
  assumes "int (length tokenIDs) \<noteq> order g"
  shows "tables (snd (findNodeContainingContext g tokenIDs)) = tables g"
proof -
  obtain failed c1 where n: "next_fault (Conn g) = (failed, c1)" by (cases "next_fault (Conn g)")
  have t: "tokens c1 = tokens (Conn g)" "nodes c1 = nodes (Conn g)" "edges c1 = edges (Conn g)"
    using next_fault_tables[of "Conn g"] n by simp_all
  let ?m = "take (nat (min (int (length tokenIDs)) (order g))) tokenIDs"
  let ?inner = "map node_id (take 20 (filter (\<lambda>n. \<exists>t\<in>set ?m. token_col n 0 = Some t) (nodes c1)))"
  show ?thesis
  proof (cases "filter (\<lambda>n. node_id n \<in> set ?inner) (nodes c1)")
    case Nil
    then show ?thesis using assms t
      by (simp add: findNodeContainingContext_def tables_def n Let_def)
  next
    case (Cons a list)
    then show ?thesis using assms t
      by (simp add: findNodeContainingContext_def tables_def n Let_def)
  qed
qed

lemma FindEdgesForContext_partial_frame:
  assumes "int (length tokenIDs) \<noteq> order g"
  shows "tables (snd (FindEdgesForContext g tokenIDs)) = tables g"
proof (cases "length tokenIDs < 2")
  case True
  then show ?thesis by (simp add: FindEdgesForContext_def)
next
  case False
  obtain r g1 where f: "findNodeContainingContext g tokenIDs = (r, g1)"
    by (cases "findNodeContainingContext g tokenIDs")
  have t: "tables g1 = tables g"
    using findNodeContainingContext_partial_frame[OF assms] f by simp
  show ?thesis
  proof (cases r)
    case (Inl err)
    then show ?thesis using False f t by (cases err) (simp_all add: FindEdgesForContext_def)
  next
    case (Inr nodeID)
    then show ?thesis using False f t findEdgesFromNode_frame[of g1 nodeID]
      by (simp add: FindEdgesForContext_def)
  qed
qed

lemma FindEdgesForContext_short:
  "length tokenIDs < 2 \<Longrightarrow> FindEdgesForContext g tokenIDs = (Inl ErrContextTooShort, g)"
  by (simp add: FindEdgesForContext_def)

lemma findEdgesFromNode_result:
  assumes "fst (findEdgesFromNode g nodeID) = Inr ids"
  shows "length ids \<le> 20"
    and "\<exists>rows. ids = map edge_id rows \<and> set rows \<subseteq> {e \<in> set (edges (Conn g)). prev_node e = nodeID} \<and>
           sorted (rev (map edge_count rows))"
proof -
  let ?all = "sort_key (\<lambda>e. - edge_count e) (filter (\<lambda>e. prev_node e = nodeID) (edges (Conn g)))"
  have ids: "ids = map edge_id (take 20 ?all)"
    using assms by (simp add: findEdgesFromNode_def next_fault_def split: list.splits if_splits)
  show "length ids \<le> 20" unfolding ids by simp
  have "sorted (map (\<lambda>e. - edge_count e) ?all)" by (rule sorted_sort_key)
  then have "sorted (map (\<lambda>e. - edge_count e) (take 20 ?all))"
    by (simp add: take_map[symmetric] sorted_wrt_take)
  then have "sorted (rev (map edge_count (take 20 ?all)))"
    by (simp add: sorted_wrt_rev sorted_map sorted_wrt_map) 
  moreover have "set (take 20 ?all) \<subseteq> {e \<in> set (edges (Conn g)). prev_node e = nodeID}"
    by (auto dest: in_set_takeD)
  ultimately show "\<exists>rows. ids = map edge_id rows \<and>
      set rows \<subseteq> {e \<in> set (edges (Conn g)). prev_node e = nodeID} \<and>
      sorted (rev (map edge_count rows))"
    using ids by blast
qed

text \<open>
  C1. The claim is that \<^verbatim>\<open>FindEdgesForContext\<close> changes no table. For a context of
  exactly \<open>order\<close> ids whose node is not in the store, the call reaches
  \<^verbatim>\<open>GetNodeByTokens\<close>, which inserts the node: on the empty store of order 2 and the
  context \<open>[1, 2]\<close> the table \<^verbatim>\<open>nodes\<close> has one row after the call.
\<close>

theorem FindEdgesForContext_writes:
  "nodes (Conn demo_empty) = [] \<and>
   FindEdgesForContext demo_empty [1, 2] =
     (Inr [], demo_empty\<lparr>Conn := (Conn demo_empty)\<lparr>nodes :=
        [\<lparr>node_id = 1, node_count = 0, token_ids = [1, 2]\<rparr>]\<rparr>\<rparr>) \<and>
   tables (snd (FindEdgesForContext demo_empty [1, 2])) \<noteq> tables demo_empty"
  by code_simp

text \<open>
  C2. The claim is that the call fails when no node can be located for the context. On a store
  of order 2 none of whose nodes holds the tokens \<open>[3, 4]\<close> or starts with one of them, the
  context \<open>[3, 4]\<close> is answered with an empty list of edges and no error (the node is created
  on the way), while the context \<open>[3, 4, 5]\<close>, one id longer, is refused with
  \<^verbatim>\<open>no matching context found\<close>, and a context of one id with
  \<^verbatim>\<open>context too short\<close>.
\<close>

theorem FindEdgesForContext_no_NoMatch:
  "list_all (\<lambda>n. token_ids n \<noteq> [3, 4] \<and> token_col n 0 \<noteq> Some 3 \<and> token_col n 0 \<noteq> Some 4)
     (nodes (Conn demo_nodes)) \<and>
   fst (FindEdgesForContext demo_nodes [3, 4]) = Inr [] \<and>
   fst (FindEdgesForContext demo_nodes [3, 4, 5]) = Inl ErrNoMatchingContext \<and>
   fst (FindEdgesForContext demo_nodes [3]) = Inl ErrContextTooShort"
  by code_simp

end
